theory Spec2Isabelle
  imports Complex_Main "HOL-Library.AList"
begin

section \<open>Method of successive averages: the embedding\<close>

text \<open>
  The program is \<^verbatim>\<open>successive_averages.py\<close>. What the embedding fixes:
  \<^item> Python floats are \<^typ>\<open>real\<close> numbers: exact arithmetic, no rounding, no
    infinities. Dividing by zero raises ZeroDivisionError, as it does for Python floats.
  \<^item> The objects of class Node and Edge live in the lists \<open>N\<close> and \<open>E\<close>, each object
    once, and a reference to a node or an edge is its position there. A function that
    updates nodes or edges in place returns the updated list.
  \<^item> A dictionary is an association list in insertion order, with distinct keys.
  \<^item> Every exception the code can raise is a value of \<open>error\<close>; a loop that does not
    end is the outcome \<open>Diverges\<close>.
  \<^item> Reading the network file and writing the report are not modelled, except for the
    treatment of one \<^verbatim>\<open>od\<close> line and for what can raise while the report is made.
\<close>

datatype error =
  AttributeError | IndexError | KeyError | ValueError | ZeroDivisionError | UnboundLocalError

datatype 'a outcome = Returns 'a | Raises error | Diverges

fun and_then :: "'a outcome \<Rightarrow> ('a \<Rightarrow> 'b outcome) \<Rightarrow> 'b outcome" where
  "and_then (Returns x) f = f x"
| "and_then (Raises e) f = Raises e"
| "and_then Diverges f = Diverges"

subsection \<open>Nodes and edges\<close>

record node =
  n_name :: string
  n_dist :: real
  n_prev :: "nat option"
  n_flag :: nat

text \<open>
  \<open>e_fn\<close> stands for the parsed cost expression together with the edge's constants:
  it maps the value bound to the free variable (the flow) to what
  \<^verbatim>\<open>function[2].evaluate(params)\<close> returns. The expression evaluator is a third-party
  module and is taken as this parameter.
\<close>

record edge =
  e_start :: string
  e_end :: string
  e_fn :: "real \<Rightarrow> real"
  e_flow :: real
  e_cost :: real
  e_aux_flow :: real

definition Node :: "string \<Rightarrow> node" where
  "Node nm = \<lparr>n_name = nm, n_dist = 1000000, n_prev = None, n_flag = 0\<rparr>"

definition update_cost :: "edge \<Rightarrow> edge" where
  "update_cost e = e\<lparr>e_cost := e_fn e (e_flow e)\<rparr>"

definition Edge :: "string \<Rightarrow> string \<Rightarrow> (real \<Rightarrow> real) \<Rightarrow> edge" where
  "Edge s t f =
     update_cost \<lparr>e_start = s, e_end = t, e_fn = f, e_flow = 0, e_cost = 0, e_aux_flow = 0\<rparr>"

definition edge_name :: "edge \<Rightarrow> string" where
  "edge_name e = e_start e @ ''-'' @ e_end e"

subsection \<open>Shortest paths\<close>

definition resetGraph :: "node list \<Rightarrow> node list" where
  "resetGraph N = map (\<lambda>nd. nd\<lparr>n_dist := 1000000, n_prev := None, n_flag := 0\<rparr>) N"

fun first_index :: "('a \<Rightarrow> bool) \<Rightarrow> 'a list \<Rightarrow> nat option" where
  "first_index P [] = None"
| "first_index P (x # xs) = (if P x then Some 0 else map_option Suc (first_index P xs))"

fun pick_scan :: "node list \<Rightarrow> nat list \<Rightarrow> nat \<Rightarrow> nat" where
  "pick_scan ns [] m = m"
| "pick_scan ns (i # is) m =
     pick_scan ns is (if n_flag (ns ! i) = 0 \<and> n_dist (ns ! i) < n_dist (ns ! m) then i else m)"

definition pickSmallestNode :: "node list \<Rightarrow> nat option" where
  "pickSmallestNode ns =
     (case first_index (\<lambda>nd. n_flag nd = 0) ns of
        None \<Rightarrow> None
      | Some m \<Rightarrow> Some (pick_scan ns [0..<length ns] m))"

definition pickEdgesList :: "node \<Rightarrow> edge list \<Rightarrow> nat list" where
  "pickEdgesList u E = filter (\<lambda>i. e_start (E ! i) = n_name u) [0..<length E]"

text \<open>
  The origin gets distance 0 (every node of that name does); \<open>dest\<close> is the last node
  whose name is the destination, or \<open>None\<close>.
\<close>

fun init_nodes :: "string \<Rightarrow> node list \<Rightarrow> node list" where
  "init_nodes origin [] = []"
| "init_nodes origin (nd # ns) =
     (if n_name nd = origin then nd\<lparr>n_dist := 0\<rparr> else nd) # init_nodes origin ns"

fun find_dest :: "string \<Rightarrow> node list \<Rightarrow> nat \<Rightarrow> nat option \<Rightarrow> nat option" where
  "find_dest destination [] i dest = dest"
| "find_dest destination (nd # ns) i dest =
     find_dest destination ns (Suc i) (if n_name nd = destination then Some i else dest)"

text \<open>
  The inner \<^verbatim>\<open>for edge in uv\<close> loop of dijkstra. The variable \<open>n\<close> is set to
  \<open>None\<close> once before the loop and keeps its value from one edge to the next when no
  node has the edge's end name; reading \<^verbatim>\<open>n.dist\<close> of \<open>None\<close> raises.
\<close>

fun relax_edges ::
  "node list \<Rightarrow> edge list \<Rightarrow> nat list \<Rightarrow> nat \<Rightarrow> nat list \<Rightarrow> nat option \<Rightarrow> node list outcome"
where
  "relax_edges ns E ignoredEdges u [] n = Returns ns"
| "relax_edges ns E ignoredEdges u (ei # uv) n =
     (if ei \<in> set ignoredEdges then relax_edges ns E ignoredEdges u uv n
      else
        (case (case first_index (\<lambda>nd. n_name nd = e_end (E ! ei)) ns of
                 Some j \<Rightarrow> Some j | None \<Rightarrow> n) of
           None \<Rightarrow> Raises AttributeError
         | Some j \<Rightarrow>
             relax_edges
               (if n_dist (ns ! j) > n_dist (ns ! u) + e_cost (E ! ei)
                then ns[j := (ns ! j)\<lparr>n_dist := n_dist (ns ! u) + e_cost (E ! ei),
                                       n_prev := Some u\<rparr>]
                else ns)
               E ignoredEdges u uv (Some j)))"

definition settle :: "node list \<Rightarrow> nat \<Rightarrow> node list" where
  "settle ns u = ns[u := (ns ! u)\<lparr>n_flag := 1\<rparr>]"

definition unsettled :: "node list \<Rightarrow> nat \<Rightarrow> nat" where
  "unsettled ns u = length (filter (\<lambda>i. n_flag (ns ! i) = 0 \<and> i \<noteq> u) [0..<length ns])"

lemma relax_edges_flags:
  "relax_edges ns E ig u uv n = Returns ns' \<Longrightarrow>
   length ns' = length ns \<and> map n_flag ns' = map n_flag ns"
proof (induction uv arbitrary: ns n)
  case Nil
  then show ?case by simp
next
  case (Cons ei uv)
  show ?case
  proof (cases "ei \<in> set ig")
    case True
    with Cons show ?thesis by simp
  next
    case False
    let ?n' = "case first_index (\<lambda>nd. n_name nd = e_end (E ! ei)) ns of
                 Some j \<Rightarrow> Some j | None \<Rightarrow> n"
    from Cons.prems False obtain j where j: "?n' = Some j"
      by (cases ?n') auto
    let ?ns1 = "if n_dist (ns ! j) > n_dist (ns ! u) + e_cost (E ! ei)
                then ns[j := (ns ! j)\<lparr>n_dist := n_dist (ns ! u) + e_cost (E ! ei),
                                       n_prev := Some u\<rparr>]
                else ns"
    from Cons.prems False j have "relax_edges ?ns1 E ig u uv (Some j) = Returns ns'"
      by simp
    from Cons.IH [OF this] have "length ns' = length ?ns1 \<and> map n_flag ns' = map n_flag ?ns1" .
    moreover have "length ?ns1 = length ns" by simp
    moreover have "map n_flag ?ns1 = map n_flag ns"
      by (cases "j < length ns") (auto intro!: nth_equalityI simp: nth_list_update)
    ultimately show ?thesis by simp
  qed
qed

lemma first_index_Some:
  "first_index P xs = Some i \<Longrightarrow> i < length xs \<and> P (xs ! i) \<and> (\<forall>j<i. \<not> P (xs ! j))"
proof (induction xs arbitrary: i)
  case Nil
  then show ?case by simp
next
  case (Cons x xs)
  show ?case
  proof (cases "P x")
    case True
    with Cons.prems show ?thesis by simp
  next
    case False
    with Cons.prems obtain k where k: "first_index P xs = Some k" and i: "i = Suc k"
      by auto
    from Cons.IH [OF k] have "k < length xs \<and> P (xs ! k) \<and> (\<forall>j<k. \<not> P (xs ! j))" .
    with False i show ?thesis by (auto simp: less_Suc_eq_0_disj)
  qed
qed

lemma first_index_None: "first_index P xs = None \<longleftrightarrow> (\<forall>x\<in>set xs. \<not> P x)"
  by (induction xs) auto

lemma pick_scan_unflagged:
  "m < length ns \<Longrightarrow> n_flag (ns ! m) = 0 \<Longrightarrow> set is \<subseteq> {..<length ns} \<Longrightarrow>
   pick_scan ns is m < length ns \<and> n_flag (ns ! pick_scan ns is m) = 0"
  by (induction "is" arbitrary: m) auto

lemma pickSmallestNode_Some:
  "pickSmallestNode ns = Some v \<Longrightarrow> v < length ns \<and> n_flag (ns ! v) = 0"
proof -
  assume a: "pickSmallestNode ns = Some v"
  then obtain m where m: "first_index (\<lambda>nd. n_flag nd = 0) ns = Some m"
    and v: "v = pick_scan ns [0..<length ns] m"
    by (auto simp: pickSmallestNode_def split: option.splits)
  from first_index_Some [OF m] have "m < length ns" "n_flag (ns ! m) = 0" by auto
  then show ?thesis unfolding v by (intro pick_scan_unflagged) auto
qed

lemma unsettled_less:
  assumes "v < length ns2" "n_flag (ns2 ! v) = 0" "length ns2 = length ns"
    and "map n_flag ns2 = map n_flag (ns[u := (ns ! u)\<lparr>n_flag := 1\<rparr>])"
  shows "unsettled ns2 v < unsettled ns u"
proof -
  have "\<And>i. i < length ns \<Longrightarrow>
      n_flag (ns2 ! i) = n_flag ((ns[u := (ns ! u)\<lparr>n_flag := 1\<rparr>]) ! i)"
    using assms(3,4) by (metis length_list_update nth_map)
  then have fl: "\<And>i. i < length ns \<Longrightarrow>
      n_flag (ns2 ! i) = (if i = u then 1 else n_flag (ns ! i))"
    by (simp add: nth_list_update)
  have sub: "{i. i < length ns \<and> n_flag (ns2 ! i) = 0 \<and> i \<noteq> v}
      \<subset> {i. i < length ns \<and> n_flag (ns ! i) = 0 \<and> i \<noteq> u}"
  proof
    show "{i. i < length ns \<and> n_flag (ns2 ! i) = 0 \<and> i \<noteq> v}
      \<subseteq> {i. i < length ns \<and> n_flag (ns ! i) = 0 \<and> i \<noteq> u}"
      using fl by (auto split: if_splits)
    have "v \<noteq> u" using fl [of v] assms(1,2,3) by (auto split: if_splits)
    then have "v \<in> {i. i < length ns \<and> n_flag (ns ! i) = 0 \<and> i \<noteq> u}"
      using fl [of v] assms(1,2,3) by (auto split: if_splits)
    then show "{i. i < length ns \<and> n_flag (ns2 ! i) = 0 \<and> i \<noteq> v}
      \<noteq> {i. i < length ns \<and> n_flag (ns ! i) = 0 \<and> i \<noteq> u}"
      by blast
  qed
  have fin: "finite {i. i < length ns \<and> n_flag (ns ! i) = 0 \<and> i \<noteq> u}" by simp
  have c: "\<And>xs w. unsettled xs w = card {i. i < length xs \<and> n_flag (xs ! i) = 0 \<and> i \<noteq> w}"
  proof -
    fix xs :: "node list" and w
    have "card (set (filter (\<lambda>i. n_flag (xs ! i) = 0 \<and> i \<noteq> w) [0..<length xs]))
        = length (filter (\<lambda>i. n_flag (xs ! i) = 0 \<and> i \<noteq> w) [0..<length xs])"
      by (rule distinct_card) simp
    moreover have "set (filter (\<lambda>i. n_flag (xs ! i) = 0 \<and> i \<noteq> w) [0..<length xs])
        = {i. i < length xs \<and> n_flag (xs ! i) = 0 \<and> i \<noteq> w}" by auto
    ultimately show "unsettled xs w = card {i. i < length xs \<and> n_flag (xs ! i) = 0 \<and> i \<noteq> w}"
      by (simp add: unsettled_def)
  qed
  show ?thesis
    unfolding c assms(3) using psubset_card_mono [OF fin sub] .
qed

text \<open>
  The selection loop \<^verbatim>\<open>while u != None\<close> of dijkstra, entered with a node \<open>u\<close>:
  settle \<open>u\<close>, relax its edges, pick the next node, and leave the loop when that node
  is \<open>dest\<close> (the \<^verbatim>\<open>break\<close>) or when there is none.
\<close>

function dijkstra_loop ::
  "node list \<Rightarrow> edge list \<Rightarrow> nat list \<Rightarrow> nat option \<Rightarrow> nat \<Rightarrow> node list outcome"
where
  "dijkstra_loop ns E ignoredEdges dest u =
     (case relax_edges (settle ns u) E ignoredEdges u
             (pickEdgesList (settle ns u ! u) E) None of
        Raises e \<Rightarrow> Raises e
      | Diverges \<Rightarrow> Diverges
      | Returns ns2 \<Rightarrow>
          (case pickSmallestNode ns2 of
             None \<Rightarrow> Returns ns2
           | Some v \<Rightarrow>
               if Some v = dest then Returns ns2
               else dijkstra_loop ns2 E ignoredEdges dest v))"
  by pat_completeness auto
termination
proof (relation "measure (\<lambda>(ns, E, ig, dest, u). unsettled ns u)")
  show "wf (measure (\<lambda>(ns, E, ig, dest, u). unsettled ns u))" by simp
next
  fix ns :: "node list" and E ignoredEdges dest u ns2 v
  assume r: "relax_edges (settle ns u) E ignoredEdges u
      (pickEdgesList (settle ns u ! u) E) None = Returns ns2"
    and p: "pickSmallestNode ns2 = Some v"
  from relax_edges_flags [OF r]
  have l: "length ns2 = length ns"
    and f: "map n_flag ns2 = map n_flag (ns[u := (ns ! u)\<lparr>n_flag := 1\<rparr>])"
    by (auto simp: settle_def)
  from pickSmallestNode_Some [OF p] have "v < length ns2" "n_flag (ns2 ! v) = 0" by auto
  from unsettled_less [OF this l f]
  show "((ns2, E, ignoredEdges, dest, v), (ns, E, ignoredEdges, dest, u))
      \<in> measure (\<lambda>(ns, E, ig, dest, u). unsettled ns u)" by simp
qed

declare dijkstra_loop.simps [simp del]

lemma dijkstra_loop_raises:
  "relax_edges (settle ns u) E ig u (pickEdgesList (settle ns u ! u) E) None = Raises e \<Longrightarrow>
   dijkstra_loop ns E ig dest u = Raises e"
  by (simp add: dijkstra_loop.simps [of ns E ig dest u])

lemma dijkstra_loop_done:
  "relax_edges (settle ns u) E ig u (pickEdgesList (settle ns u ! u) E) None = Returns ns2 \<Longrightarrow>
   pickSmallestNode ns2 = None \<Longrightarrow> dijkstra_loop ns E ig dest u = Returns ns2"
  by (simp add: dijkstra_loop.simps [of ns E ig dest u])

lemma dijkstra_loop_break:
  "relax_edges (settle ns u) E ig u (pickEdgesList (settle ns u ! u) E) None = Returns ns2 \<Longrightarrow>
   pickSmallestNode ns2 = Some v \<Longrightarrow>
   dijkstra_loop ns E ig (Some v) u = Returns ns2"
  by (simp add: dijkstra_loop.simps [of ns E ig "Some v" u])

lemma dijkstra_loop_next:
  "relax_edges (settle ns u) E ig u (pickEdgesList (settle ns u ! u) E) None = Returns ns2 \<Longrightarrow>
   pickSmallestNode ns2 = Some v \<Longrightarrow> dest \<noteq> Some v \<Longrightarrow>
   dijkstra_loop ns E ig dest u = dijkstra_loop ns2 E ig dest v"
  by (auto simp: dijkstra_loop.simps [of ns E ig dest u])

text \<open>
  The final \<^verbatim>\<open>while u.prev != None\<close> loop, which prepends nodes to \<open>S\<close>. It has no
  bound: on a cycle of predecessors it does not return (the value \<open>None\<close>).
\<close>

partial_function (option) walk_back :: "node list \<Rightarrow> nat \<Rightarrow> nat list \<Rightarrow> nat list option" where
  "walk_back ns u S =
     (case n_prev (ns ! u) of
        None \<Rightarrow> Some (u # S)
      | Some p \<Rightarrow> walk_back ns p (u # S))"

declare walk_back.simps [code]

text \<open>
  The search part of dijkstra (lines up to the end of the selection loop) returns the
  node states and \<open>dest\<close>; dijkstra then walks the predecessors back from \<open>dest\<close>.
  Both return the node list, since the code updates the nodes of \<open>N\<close> in place.
\<close>

definition dijkstra_search ::
  "node list \<Rightarrow> edge list \<Rightarrow> string \<Rightarrow> string \<Rightarrow> nat list \<Rightarrow> (node list \<times> nat option) outcome"
where
  "dijkstra_search N E origin destination ignoredEdges =
     (let ns = init_nodes origin (resetGraph N);
          dest = find_dest destination ns 0 None
      in case pickSmallestNode ns of
           None \<Rightarrow> Returns (ns, dest)
         | Some u \<Rightarrow>
             and_then (dijkstra_loop ns E ignoredEdges dest u) (\<lambda>ns'. Returns (ns', dest)))"

definition dijkstra ::
  "node list \<Rightarrow> edge list \<Rightarrow> string \<Rightarrow> string \<Rightarrow> nat list \<Rightarrow> (node list \<times> nat list) outcome"
where
  "dijkstra N E origin destination ignoredEdges =
     and_then (dijkstra_search N E origin destination ignoredEdges)
       (\<lambda>(ns, dest).
          case dest of
            None \<Rightarrow> Raises AttributeError
          | Some d \<Rightarrow>
              (case walk_back ns d [] of
                 None \<Rightarrow> Diverges
               | Some S \<Rightarrow> Returns (ns, S)))"

subsection \<open>Paths as edges and as strings\<close>

text \<open>
  getPathAsEdges takes, for each pair of consecutive nodes, the first edge of \<open>E\<close> with
  these start and end names; \<^verbatim>\<open>[...][0]\<close> raises IndexError when there is none.
\<close>

fun getPathAsEdges :: "node list \<Rightarrow> edge list \<Rightarrow> nat option \<Rightarrow> nat list \<Rightarrow> nat list outcome" where
  "getPathAsEdges ns E prev [] = Returns []"
| "getPathAsEdges ns E prev (nd # P) =
     (case prev of
        None \<Rightarrow> getPathAsEdges ns E (Some nd) P
      | Some p \<Rightarrow>
          (case first_index (\<lambda>e. e_start e = n_name (ns ! p) \<and> e_end e = n_name (ns ! nd)) E of
             None \<Rightarrow> Raises IndexError
           | Some i \<Rightarrow>
               and_then (getPathAsEdges ns E (Some nd) P) (\<lambda>path. Returns (i # path))))"

fun join_names :: "string \<Rightarrow> string list \<Rightarrow> string" where
  "join_names strout [] = strout"
| "join_names strout (nm # nms) =
     join_names ((if strout \<noteq> [] then strout @ '' - '' else strout) @ nm) nms"

text \<open>
  pathToStr as run\_MSA calls it, on a list of edges: \<^verbatim>\<open>path[0]\<close> raises IndexError
  on the empty list.
\<close>

definition pathToStr :: "nat list \<Rightarrow> edge list \<Rightarrow> string outcome" where
  "pathToStr path E =
     (case path of
        [] \<Rightarrow> Raises IndexError
      | _ # _ \<Rightarrow> Returns (join_names [] (map (\<lambda>i. edge_name (E ! i)) path)))"

text \<open>Python's \<^verbatim>\<open>str.split(sep)\<close> for a separator of one character.\<close>

fun split_on :: "char \<Rightarrow> string \<Rightarrow> string list" where
  "split_on c [] = [[]]"
| "split_on c (x # xs) =
     (if x = c then [] # split_on c xs
      else (case split_on c xs of [] \<Rightarrow> [[x]] | w # ws \<Rightarrow> (x # w) # ws))"

subsection \<open>The assignment loop\<close>

type_synonym od_matrix = "(string \<times> real) list"
type_synonym route_table = "(string \<times> nat list \<times> real) list"
type_synonym od_table = "(string \<times> route_table) list"
type_synonym min_table = "(string \<times> string \<times> nat list) list"

text \<open>
  Dictionaries are association lists in insertion order; \<open>AList.update\<close> is the
  assignment \<^verbatim>\<open>d[k] = v\<close> (in place for a key that is there, at the end for a new one).
  The body of the first \<^verbatim>\<open>for od in OD_matrix\<close> loop up to \<open>route_str\<close>:
\<close>

definition shortest_route ::
  "node list \<Rightarrow> edge list \<Rightarrow> string \<Rightarrow> (node list \<times> string \<times> nat list) outcome"
where
  "shortest_route N E od =
     (case split_on CHR ''|'' od of
        [o_name, d_name] \<Rightarrow>
          and_then (dijkstra N E o_name d_name []) (\<lambda>(ns, P).
            and_then (getPathAsEdges ns E None P) (\<lambda>route.
              and_then (pathToStr route E) (\<lambda>route_str.
                Returns (ns, route_str, route))))
      | _ \<Rightarrow> Raises ValueError)"

fun all_or_nothing ::
  "node list \<Rightarrow> edge list \<Rightarrow> string list \<Rightarrow> min_table \<Rightarrow> od_table \<Rightarrow>
   (node list \<times> min_table \<times> od_table) outcome"
where
  "all_or_nothing N E [] min_routes tab = Returns (N, min_routes, tab)"
| "all_or_nothing N E (od # ods) min_routes tab =
     and_then (shortest_route N E od) (\<lambda>(ns, route_str, route).
       case map_of tab od of
         None \<Rightarrow> Raises KeyError
       | Some rs \<Rightarrow>
           all_or_nothing ns E ods (AList.update od (route_str, route) min_routes)
             (if route_str \<in> fst ` set rs then tab
              else AList.update od (AList.update route_str (route, 0) rs) tab))"

fun add_aux_flow :: "edge list \<Rightarrow> nat list \<Rightarrow> real \<Rightarrow> edge list" where
  "add_aux_flow E [] vna = E"
| "add_aux_flow E (i # is) vna =
     add_aux_flow (E[i := (E ! i)\<lparr>e_aux_flow := e_aux_flow (E ! i) + vna\<rparr>]) is vna"

definition new_flow :: "real \<Rightarrow> real \<Rightarrow> real \<Rightarrow> real" where
  "new_flow phi fa vna = max ((1 - phi) * vna + phi * fa) 0"

fun blend_routes ::
  "real \<Rightarrow> string \<Rightarrow> real \<Rightarrow> route_table \<Rightarrow> edge list \<Rightarrow> edge list \<times> route_table"
where
  "blend_routes phi best demand [] E = (E, [])"
| "blend_routes phi best demand ((route, es, vna) # rs) E =
     (case blend_routes phi best demand rs
             (add_aux_flow E es (new_flow phi (if route = best then demand else 0) vna)) of
        (E', rs') \<Rightarrow>
          (E', (route, es, new_flow phi (if route = best then demand else 0) vna) # rs'))"

text \<open>
  The second \<^verbatim>\<open>for od in OD_matrix\<close> loop. \<^verbatim>\<open>min_routes[od]\<close> is read inside the
  loop over the routes, so not at all for a pair with no route.
\<close>

fun blend ::
  "real \<Rightarrow> od_matrix \<Rightarrow> min_table \<Rightarrow> edge list \<Rightarrow> od_table \<Rightarrow> (edge list \<times> od_table) outcome"
where
  "blend phi [] min_routes E tab = Returns (E, tab)"
| "blend phi ((od, demand) # ods) min_routes E tab =
     (case map_of tab od of
        None \<Rightarrow> Raises KeyError
      | Some rs \<Rightarrow>
          if rs = [] then blend phi ods min_routes E tab
          else
            (case map_of min_routes od of
               None \<Rightarrow> Raises KeyError
             | Some (best, _) \<Rightarrow>
                 (case blend_routes phi best demand rs E of
                    (E', rs') \<Rightarrow> blend phi ods min_routes E' (AList.update od rs' tab))))"

definition clear_aux :: "edge list \<Rightarrow> edge list" where
  "clear_aux E = map (\<lambda>e. e\<lparr>e_aux_flow := 0\<rparr>) E"

definition apply_flows :: "edge list \<Rightarrow> edge list" where
  "apply_flows E = map (\<lambda>e. update_cost (e\<lparr>e_flow := e_aux_flow e\<rparr>)) E"

text \<open>
  One pass of the body of \<^verbatim>\<open>for n in range(1, its+1)\<close>. The loop never passes
  \<open>n = 0\<close>, where \<^verbatim>\<open>phi = 1.0 / n\<close> would raise.
\<close>

definition msa_iteration ::
  "nat \<Rightarrow> od_matrix \<Rightarrow> node list \<times> edge list \<times> od_table \<Rightarrow>
   (node list \<times> edge list \<times> od_table) outcome"
where
  "msa_iteration n OD_matrix s =
     (case s of (N, E, tab) \<Rightarrow>
        if n = 0 then Raises ZeroDivisionError
        else
          and_then (all_or_nothing N (clear_aux E) (map fst OD_matrix) [] tab)
            (\<lambda>(N', min_routes, tab1).
               and_then (blend (1 / real n) OD_matrix min_routes (clear_aux E) tab1)
                 (\<lambda>(E2, tab2). Returns (N', apply_flows E2, tab2))))"

fun msa_loop ::
  "nat \<Rightarrow> nat \<Rightarrow> od_matrix \<Rightarrow> node list \<times> edge list \<times> od_table \<Rightarrow>
   (node list \<times> edge list \<times> od_table) outcome"
where
  "msa_loop n 0 OD_matrix s = Returns s"
| "msa_loop n (Suc k) OD_matrix s =
     and_then (msa_iteration n OD_matrix s) (msa_loop (Suc n) k OD_matrix)"

subsection \<open>Evaluation of the assignment\<close>

text \<open>Python 3's \<^verbatim>\<open>round\<close> with one argument: to the nearest integer, ties to even.\<close>

definition py_round :: "real \<Rightarrow> int" where
  "py_round x =
     (if x - of_int \<lfloor>x\<rfloor> < 1 / 2 then \<lfloor>x\<rfloor>
      else if x - of_int \<lfloor>x\<rfloor> > 1 / 2 then \<lfloor>x\<rfloor> + 1
      else if even \<lfloor>x\<rfloor> then \<lfloor>x\<rfloor> else \<lfloor>x\<rfloor> + 1)"

text \<open>Line 440: \<^verbatim>\<open>cost = round(cost * 100) / 100\<close>.\<close>

definition round_cents :: "real \<Rightarrow> real" where
  "round_cents cost = of_int (py_round (cost * 100)) / 100"

text \<open>The loop over the edges of one route: \<open>(cost, sum_tt)\<close>.\<close>

fun route_pass :: "edge list \<Rightarrow> real \<Rightarrow> nat list \<Rightarrow> real \<times> real \<Rightarrow> real \<times> real" where
  "route_pass E vna [] acc = acc"
| "route_pass E vna (i # is) acc =
     route_pass E vna is (fst acc + e_cost (E ! i), snd acc + e_cost (E ! i) * vna)"

text \<open>
  The loop over the routes of one pair: \<open>(sum_tt, min_cost, aux)\<close>, with \<open>None\<close> for
  the initial \<^verbatim>\<open>float('inf')\<close> of \<open>min_cost\<close>; \<open>aux\<close> holds flow and rounded cost.
\<close>

fun routes_pass ::
  "edge list \<Rightarrow> route_table \<Rightarrow> real \<times> real option \<times> (real \<times> real) list \<Rightarrow>
   real \<times> real option \<times> (real \<times> real) list"
where
  "routes_pass E [] acc = acc"
| "routes_pass E ((route, es, vna) # rs) acc =
     (case acc of (sum_tt, min_cost, aux) \<Rightarrow>
        (case route_pass E vna es (0, sum_tt) of (cost0, sum_tt') \<Rightarrow>
           routes_pass E rs
             (sum_tt',
              (case min_cost of
                 None \<Rightarrow> Some (round_cents cost0)
               | Some m \<Rightarrow> if round_cents cost0 < m then Some (round_cents cost0) else Some m),
              aux @ [(vna, round_cents cost0)])))"

text \<open>The loop over \<open>aux\<close>: \<open>(sum_deviations, delta_top)\<close>.\<close>

fun aux_pass :: "real \<Rightarrow> (real \<times> real) list \<Rightarrow> real \<times> real \<Rightarrow> real \<times> real" where
  "aux_pass min_cost [] acc = acc"
| "aux_pass min_cost ((vna, cost) # aux) acc =
     aux_pass min_cost aux
       (fst acc + (if cost > min_cost then vna else 0), snd acc + vna * (cost - min_cost))"

text \<open>
  The loop over the pairs of the route table:
  \<open>(sum_tt, sum_deviations, delta_top, delta_bottom)\<close>. \<^verbatim>\<open>OD_matrix[od]\<close> raises
  KeyError for a pair that is not in the demand table.
\<close>

fun eval_pairs ::
  "od_matrix \<Rightarrow> edge list \<Rightarrow> od_table \<Rightarrow> real \<times> real \<times> real \<times> real \<Rightarrow>
   (real \<times> real \<times> real \<times> real) outcome"
where
  "eval_pairs OD_matrix E [] acc = Returns acc"
| "eval_pairs OD_matrix E ((od, rs) # tab) acc =
     (case acc of (sum_tt, sum_deviations, delta_top, delta_bottom) \<Rightarrow>
        (case routes_pass E rs (sum_tt, None, []) of (sum_tt', min_cost, aux) \<Rightarrow>
           (case (case min_cost of
                    None \<Rightarrow> (sum_deviations, delta_top)
                  | Some m \<Rightarrow> aux_pass m aux (sum_deviations, delta_top)) of
              (sum_deviations', delta_top') \<Rightarrow>
                (case map_of OD_matrix od of
                   None \<Rightarrow> Raises KeyError
                 | Some demand \<Rightarrow>
                     eval_pairs OD_matrix E tab
                       (sum_tt', sum_deviations', delta_top', delta_bottom + demand)))))"

text \<open>
  evaluate\_assignment returns \<open>UE\<close>. Writing the report is not modelled, except for what
  can raise: the quotient \<^verbatim>\<open>delta_top / delta_bottom\<close> when \<open>output\<close> is set, and the
  use of the unbound \<open>fh\<close> in line 469 when it is not. A float division by zero raises
  ZeroDivisionError in Python.
\<close>

definition evaluate_assignment :: "od_matrix \<Rightarrow> od_table \<Rightarrow> edge list \<Rightarrow> bool \<Rightarrow> real outcome" where
  "evaluate_assignment OD_matrix od_routes_flow edge_list output =
     and_then (eval_pairs OD_matrix edge_list od_routes_flow (0, 0, 0, 0))
       (\<lambda>(sum_tt, sum_deviations, delta_top, delta_bottom).
          if sum_list (map snd OD_matrix) = 0 then Raises ZeroDivisionError
          else if output then
            (if delta_bottom = 0 then Raises ZeroDivisionError
             else Returns (sum_tt / sum_list (map snd OD_matrix)))
          else Raises UnboundLocalError)"

text \<open>
  run\_MSA returns \<open>UE\<close> and the route table; the model also returns the nodes and
  edges, which the code has updated in place. \<open>its\<close> is a natural number (for a
  negative \<open>its\<close> the range is empty, as for 0).
\<close>

definition run_MSA ::
  "nat \<Rightarrow> node list \<Rightarrow> edge list \<Rightarrow> od_matrix \<Rightarrow> bool \<Rightarrow>
   (real \<times> od_table \<times> node list \<times> edge list) outcome"
where
  "run_MSA its N E OD_matrix output =
     and_then (msa_loop 1 its OD_matrix (N, E, map (\<lambda>od. (od, [])) (map fst OD_matrix)))
       (\<lambda>(N', E', od_routes_flow).
          and_then (evaluate_assignment OD_matrix od_routes_flow E' output)
            (\<lambda>UE. Returns (UE, od_routes_flow, N', E')))"

subsection \<open>The od lines of the network file\<close>

text \<open>
  The \<^verbatim>\<open>od\<close> branch of generateGraph on the split line \<open>taglist\<close>. Python's
  \<^verbatim>\<open>float\<close> is the parameter \<open>to_float\<close> (\<open>None\<close> where it raises ValueError).
\<close>

definition od_line ::
  "(string \<Rightarrow> real option) \<Rightarrow> string list \<Rightarrow> od_matrix \<Rightarrow> od_matrix outcome"
where
  "od_line to_float taglist OD =
     (if length taglist \<le> 3 then Raises IndexError
      else if taglist ! 2 \<noteq> taglist ! 3 then
        (if length taglist \<le> 4 then Raises IndexError
         else (case to_float (taglist ! 4) of
                 None \<Rightarrow> Raises ValueError
               | Some demand \<Rightarrow> Returns (AList.update (taglist ! 1) demand OD)))
      else Returns OD)"

section \<open>The convergence evaluation\<close>















section \<open>Pair names and absent destinations\<close>

lemma split_on_nonempty: "split_on c s \<noteq> []"
  by (induction s) (auto split: list.splits)

lemma split_on_no_sep: "c \<notin> set s \<Longrightarrow> split_on c s = [s]"
  by (induction s) auto

lemma split_on_one_sep:
  "c \<notin> set a \<Longrightarrow> c \<notin> set b \<Longrightarrow> split_on c (a @ c # b) = [a, b]"
  by (induction a) (auto simp: split_on_no_sep)

text \<open>
  C9. An \<^verbatim>\<open>od\<close> line whose two declared node names differ stores the demand under
  the pair's name alone: the declared names (fields 2 and 3) are only compared and then
  dropped. run\_MSA routes a pair by splitting that name at \<open>|\<close>: for a name
  \<open>o|d\<close> the shortest route is computed from \<open>o\<close> to \<open>d\<close>.
\<close>

theorem od_key_split_routed:
  assumes "CHR ''|'' \<notin> set o_name" and "CHR ''|'' \<notin> set d_name"
    and "length taglist > 4" and "taglist ! 1 = o_name @ ''|'' @ d_name"
    and "taglist ! 2 \<noteq> taglist ! 3" and "to_float (taglist ! 4) = Some demand"
  shows "od_line to_float taglist OD = Returns (AList.update (o_name @ ''|'' @ d_name) demand OD)
    \<and> shortest_route N E (o_name @ ''|'' @ d_name) =
        and_then (dijkstra N E o_name d_name []) (\<lambda>(ns, P).
          and_then (getPathAsEdges ns E None P) (\<lambda>route.
            and_then (pathToStr route E) (\<lambda>route_str.
              Returns (ns, route_str, route))))"
proof
  from assms(3-6)
  show "od_line to_float taglist OD = Returns (AList.update (o_name @ ''|'' @ d_name) demand OD)"
    by (simp add: od_line_def)
  from split_on_one_sep [OF assms(1,2)]
  have "split_on CHR ''|'' (o_name @ ''|'' @ d_name) = [o_name, d_name]" by simp
  then show "shortest_route N E (o_name @ ''|'' @ d_name) =
        and_then (dijkstra N E o_name d_name []) (\<lambda>(ns, P).
          and_then (getPathAsEdges ns E None P) (\<lambda>route.
            and_then (pathToStr route E) (\<lambda>route_str.
              Returns (ns, route_str, route))))"
    by (simp add: shortest_route_def)
qed

theorem od_key_split_routed_witness:
  "CHR ''|'' \<notin> set ''a'' \<and> CHR ''|'' \<notin> set ''b''
   \<and> length [''od'', ''a|b'', ''x'', ''y'', ''10''] > 4
   \<and> od_line (\<lambda>s. if s = ''10'' then Some 10 else None) [''od'', ''a|b'', ''x'', ''y'', ''10''] []
        = Returns [(''a|b'', 10)]
   \<and> shortest_route [Node ''a'', Node ''b'', Node ''x'', Node ''y''] [Edge ''a'' ''b'' (\<lambda>x. 1)] ''a|b'' =
        and_then (dijkstra [Node ''a'', Node ''b'', Node ''x'', Node ''y''] [Edge ''a'' ''b'' (\<lambda>x. 1)] ''a'' ''b'' []) (\<lambda>(ns, P).
          and_then (getPathAsEdges ns [Edge ''a'' ''b'' (\<lambda>x. 1)] None P) (\<lambda>route.
            and_then (pathToStr route [Edge ''a'' ''b'' (\<lambda>x. 1)]) (\<lambda>route_str.
              Returns (ns, route_str, route))))"
  using od_key_split_routed [of "''a''" "''b''" "[''od'', ''a|b'', ''x'', ''y'', ''10'']"
      "\<lambda>s. if s = ''10'' then Some 10 else None" 10 "[]"
      "[Node ''a'', Node ''b'', Node ''x'', Node ''y'']" "[Edge ''a'' ''b'' (\<lambda>x. 1)]"]
  by simp

lemma find_dest_absent:
  "destination \<notin> n_name ` set ns \<Longrightarrow> find_dest destination ns i dest = dest"
  by (induction ns arbitrary: i dest) auto

lemma init_nodes_names: "map n_name (init_nodes origin ns) = map n_name ns"
  by (induction ns) auto

lemma resetGraph_names: "map n_name (resetGraph N) = map n_name N"
  by (simp add: resetGraph_def)

lemma relax_edges_outcome:
  "relax_edges ns E ig u uv n \<noteq> Diverges \<and>
   (relax_edges ns E ig u uv n = Raises e \<longrightarrow> e = AttributeError)"
  by (induction uv arbitrary: ns n) (auto split: option.splits)

lemma dijkstra_loop_outcome:
  "dijkstra_loop ns E ig dest u \<noteq> Diverges \<and>
   (dijkstra_loop ns E ig dest u = Raises e \<longrightarrow> e = AttributeError)"
proof (induction ns E ig dest u rule: dijkstra_loop.induct)
  case (1 ns E ig dest u)
  let ?r = "relax_edges (settle ns u) E ig u (pickEdgesList (settle ns u ! u) E) None"
  show ?case
  proof (cases ?r)
    case (Returns ns2)
    show ?thesis
    proof (cases "pickSmallestNode ns2")
      case None
      from dijkstra_loop_done [OF Returns None] show ?thesis by simp
    next
      case (Some v)
      show ?thesis
      proof (cases "dest = Some v")
        case True
        from dijkstra_loop_break [OF Returns Some] True show ?thesis by simp
      next
        case False
        then have "Some v \<noteq> dest" by auto
        from "1.IH" [OF Returns Some this] dijkstra_loop_next [OF Returns Some False]
        show ?thesis by simp
      qed
    qed
  next
    case (Raises e')
    from relax_edges_outcome [of "settle ns u" E ig u "pickEdgesList (settle ns u ! u) E" None e']
      Raises
    have "e' = AttributeError" by simp
    with dijkstra_loop_raises [OF Raises, of dest] show ?thesis by simp
  next
    case Diverges
    with relax_edges_outcome [of "settle ns u" E ig u _ None]
    show ?thesis by simp
  qed
qed

lemma dijkstra_absent_raises:
  assumes "destination \<notin> n_name ` set N"
  shows "dijkstra N E origin destination ig = Raises AttributeError"
proof -
  let ?ns = "init_nodes origin (resetGraph N)"
  have "set (map n_name ?ns) = set (map n_name N)"
    by (simp only: init_nodes_names resetGraph_names)
  with assms have "destination \<notin> n_name ` set ?ns" by simp
  then have d: "find_dest destination ?ns 0 None = None" by (rule find_dest_absent)
  show ?thesis
  proof (cases "pickSmallestNode ?ns")
    case None
    with d show ?thesis by (simp add: dijkstra_def dijkstra_search_def)
  next
    case (Some u)
    show ?thesis
    proof (cases "dijkstra_loop ?ns E ig None u")
      case (Returns x)
      with d Some show ?thesis by (simp add: dijkstra_def dijkstra_search_def)
    next
      case (Raises e)
      with dijkstra_loop_outcome [of ?ns E ig None u e] have "e = AttributeError" by simp
      with Raises d Some show ?thesis by (simp add: dijkstra_def dijkstra_search_def)
    next
      case Diverges
      with dijkstra_loop_outcome [of ?ns E ig None u] show ?thesis by simp
    qed
  qed
qed


lemma relax_edges_names:
  "relax_edges ns E ig u uv n = Returns ns' \<Longrightarrow> map n_name ns' = map n_name ns"
proof (induction uv arbitrary: ns n)
  case Nil
  then show ?case by simp
next
  case (Cons ei uv)
  show ?case
  proof (cases "ei \<in> set ig")
    case True
    with Cons show ?thesis by simp
  next
    case False
    let ?n' = "case first_index (\<lambda>nd. n_name nd = e_end (E ! ei)) ns of
                 Some j \<Rightarrow> Some j | None \<Rightarrow> n"
    from Cons.prems False obtain j where j: "?n' = Some j"
      by (cases ?n') auto
    let ?ns1 = "if n_dist (ns ! j) > n_dist (ns ! u) + e_cost (E ! ei)
                then ns[j := (ns ! j)\<lparr>n_dist := n_dist (ns ! u) + e_cost (E ! ei),
                                       n_prev := Some u\<rparr>]
                else ns"
    from Cons.prems False j have "relax_edges ?ns1 E ig u uv (Some j) = Returns ns'"
      by simp
    from Cons.IH [OF this] have "map n_name ns' = map n_name ?ns1" .
    moreover have "map n_name ?ns1 = map n_name ns"
      by (cases "j < length ns") (auto intro!: nth_equalityI simp: nth_list_update)
    ultimately show ?thesis by simp
  qed
qed

lemma relax_edges_wf:
  "\<forall>i\<in>set uv. e_end (E ! i) \<in> set (map n_name ns) \<Longrightarrow>
   \<exists>ns'. relax_edges ns E ig u uv n = Returns ns'"
proof (induction uv arbitrary: ns n)
  case Nil
  then show ?case by simp
next
  case (Cons ei uv)
  show ?case
  proof (cases "ei \<in> set ig")
    case True
    with Cons show ?thesis by simp
  next
    case False
    from Cons.prems have "e_end (E ! ei) \<in> n_name ` set ns" by simp
    then have "first_index (\<lambda>nd. n_name nd = e_end (E ! ei)) ns \<noteq> None"
      by (auto simp: first_index_None)
    then obtain j where j: "first_index (\<lambda>nd. n_name nd = e_end (E ! ei)) ns = Some j"
      by auto
    let ?ns1 = "if n_dist (ns ! j) > n_dist (ns ! u) + e_cost (E ! ei)
                then ns[j := (ns ! j)\<lparr>n_dist := n_dist (ns ! u) + e_cost (E ! ei),
                                       n_prev := Some u\<rparr>]
                else ns"
    have "map n_name ?ns1 = map n_name ns"
      by (cases "j < length ns") (auto intro!: nth_equalityI simp: nth_list_update)
    with Cons.prems have "\<forall>i\<in>set uv. e_end (E ! i) \<in> set (map n_name ?ns1)" by simp
    from Cons.IH [OF this, of "Some j"] obtain ns'
      where "relax_edges ?ns1 E ig u uv (Some j) = Returns ns'" by blast
    with False j show ?thesis by simp
  qed
qed

lemma settle_names: "map n_name (settle ns u) = map n_name ns"
  by (cases "u < length ns") (auto intro!: nth_equalityI simp: nth_list_update settle_def)

lemma pickEdgesList_set: "set (pickEdgesList u E) \<subseteq> {..<length E}"
  by (auto simp: pickEdgesList_def)

lemma dijkstra_loop_wf:
  "\<forall>e\<in>set E. e_end e \<in> set (map n_name ns) \<Longrightarrow>
   \<exists>ns'. dijkstra_loop ns E ig dest u = Returns ns' \<and> map n_name ns' = map n_name ns
     \<and> (dest = None \<longrightarrow> pickSmallestNode ns' = None)"
proof (induction ns E ig dest u rule: dijkstra_loop.induct)
  case (1 ns E ig dest u)
  let ?uv = "pickEdgesList (settle ns u ! u) E"
  have "\<forall>i\<in>set ?uv. e_end (E ! i) \<in> set (map n_name (settle ns u))"
  proof
    fix i assume "i \<in> set ?uv"
    with pickEdgesList_set [of "settle ns u ! u" E] have "i < length E" by auto
    then have "E ! i \<in> set E" by simp
    with "1.prems" show "e_end (E ! i) \<in> set (map n_name (settle ns u))"
      by (simp only: settle_names)
  qed
  from relax_edges_wf [OF this, of ig u None] obtain ns2
    where r: "relax_edges (settle ns u) E ig u ?uv None = Returns ns2" by blast
  from relax_edges_names [OF r] have n2: "map n_name ns2 = map n_name ns"
    by (simp add: settle_names)
  show ?case
  proof (cases "pickSmallestNode ns2")
    case None
    from dijkstra_loop_done [OF r None] n2 None show ?thesis by simp
  next
    case (Some v)
    show ?thesis
    proof (cases "dest = Some v")
      case True
      from dijkstra_loop_break [OF r Some] True n2 show ?thesis by simp
    next
      case False
      then have "Some v \<noteq> dest" by auto
      from "1.prems" n2 have "\<forall>e\<in>set E. e_end e \<in> set (map n_name ns2)" by simp
      from "1.IH" [OF r Some \<open>Some v \<noteq> dest\<close> this] dijkstra_loop_next [OF r Some False] n2
      show ?thesis by simp
    qed
  qed
qed

text \<open>
  C10. For a destination name that no node has, dijkstra raises AttributeError: it
  returns no path and no named error. When every edge ends at a node of the list, the
  search itself completes with \<open>dest\<close> still \<open>None\<close> and every node settled, so the
  failure is the read of \<^verbatim>\<open>u.prev\<close> on \<open>None\<close> in the reconstruction.
\<close>

theorem dijkstra_absent_destination:
  assumes "destination \<notin> n_name ` set N"
  shows "dijkstra N E origin destination ig = Raises AttributeError
    \<and> ((\<forall>e\<in>set E. e_end e \<in> n_name ` set N) \<longrightarrow>
        (\<exists>ns. dijkstra_search N E origin destination ig = Returns (ns, None)
           \<and> (\<forall>nd\<in>set ns. n_flag nd \<noteq> 0)))"
proof
  from assms show "dijkstra N E origin destination ig = Raises AttributeError"
    by (rule dijkstra_absent_raises)
  show "(\<forall>e\<in>set E. e_end e \<in> n_name ` set N) \<longrightarrow>
        (\<exists>ns. dijkstra_search N E origin destination ig = Returns (ns, None)
           \<and> (\<forall>nd\<in>set ns. n_flag nd \<noteq> 0))"
  proof
    assume wf: "\<forall>e\<in>set E. e_end e \<in> n_name ` set N"
    let ?ns = "init_nodes origin (resetGraph N)"
    have nm: "map n_name ?ns = map n_name N"
      by (simp only: init_nodes_names resetGraph_names)
    then have "set (map n_name ?ns) = set (map n_name N)" by simp
    with assms have "destination \<notin> n_name ` set ?ns" by simp
    then have d: "find_dest destination ?ns 0 None = None" by (rule find_dest_absent)
    show "\<exists>ns. dijkstra_search N E origin destination ig = Returns (ns, None)
           \<and> (\<forall>nd\<in>set ns. n_flag nd \<noteq> 0)"
    proof (cases "pickSmallestNode ?ns")
      case None
      then have "\<forall>nd\<in>set ?ns. n_flag nd \<noteq> 0"
        by (auto simp: pickSmallestNode_def first_index_None split: option.splits)
      with d None show ?thesis by (simp add: dijkstra_search_def)
    next
      case (Some u)
      from wf nm have "\<forall>e\<in>set E. e_end e \<in> set (map n_name ?ns)" by simp
      from dijkstra_loop_wf [OF this, of ig None u] obtain ns'
        where l: "dijkstra_loop ?ns E ig None u = Returns ns'"
          and p: "pickSmallestNode ns' = None" by auto
      from p have "\<forall>nd\<in>set ns'. n_flag nd \<noteq> 0"
        by (auto simp: pickSmallestNode_def first_index_None split: option.splits)
      with d Some l show ?thesis by (simp add: dijkstra_search_def)
    qed
  qed
qed

theorem dijkstra_absent_destination_witness:
  "''c'' \<notin> n_name ` set [Node ''a'', Node ''b'']
   \<and> dijkstra [Node ''a'', Node ''b''] [Edge ''a'' ''b'' (\<lambda>x. 1)] ''a'' ''c'' [] = Raises AttributeError
   \<and> e_end (Edge ''a'' ''b'' (\<lambda>x. 1)) \<in> n_name ` set [Node ''a'', Node ''b'']
   \<and> (\<exists>ns. dijkstra_search [Node ''a'', Node ''b''] [Edge ''a'' ''b'' (\<lambda>x. 1)] ''a'' ''c'' []
          = Returns (ns, None))"
  using dijkstra_absent_destination [of "''c''" "[Node ''a'', Node ''b'']" "[Edge ''a'' ''b'' (\<lambda>x. 1)]" "''a''" "[]"]
  by (auto simp: Node_def Edge_def update_cost_def)

section \<open>The route table and the flows\<close>



definition nonneg_table :: "od_table \<Rightarrow> bool" where
  "nonneg_table tab \<longleftrightarrow> list_all (\<lambda>(od, rs). list_all (\<lambda>(route, es, vna). 0 \<le> vna) rs) tab"

definition nonneg_flows :: "edge list \<Rightarrow> od_table \<Rightarrow> bool" where
  "nonneg_flows E tab \<longleftrightarrow> list_all (\<lambda>e. 0 \<le> e_flow e) E \<and> nonneg_table tab"



lemma in_set_updateD: "x \<in> set (AList.update k v al) \<Longrightarrow> x = (k, v) \<or> x \<in> set al"
  by (induction al) (auto split: if_splits)









lemma add_aux_flow_length: "length (add_aux_flow E es v) = length E"
  by (induction es arbitrary: E) auto

lemma add_aux_flow_nonneg:
  "0 \<le> v \<Longrightarrow> list_all (\<lambda>e. 0 \<le> e_aux_flow e) E \<Longrightarrow>
   list_all (\<lambda>e. 0 \<le> e_aux_flow e) (add_aux_flow E es v)"
proof (induction es arbitrary: E)
  case Nil
  then show ?case by simp
next
  case (Cons i es)
  have "list_all (\<lambda>e. 0 \<le> e_aux_flow e) (E[i := (E ! i)\<lparr>e_aux_flow := e_aux_flow (E ! i) + v\<rparr>])"
    using Cons.prems
    by (cases "i < length E") (auto simp: list_all_length nth_list_update)
  from Cons.IH [OF Cons.prems(1) this] show ?case by simp
qed

lemma new_flow_nonneg: "0 \<le> new_flow phi fa vna"
  by (simp add: new_flow_def)

lemma blend_routes_nonneg:
  "blend_routes phi best demand rs E = (E', rs') \<Longrightarrow>
   list_all (\<lambda>e. 0 \<le> e_aux_flow e) E \<Longrightarrow>
   list_all (\<lambda>e. 0 \<le> e_aux_flow e) E' \<and> list_all (\<lambda>(route, es, vna). 0 \<le> vna) rs'"
proof (induction rs arbitrary: E E' rs')
  case Nil
  then show ?case by simp
next
  case (Cons r rs)
  obtain route es vna where r: "r = (route, es, vna)" by (cases r)
  let ?v = "new_flow phi (if route = best then demand else 0) vna"
  obtain E1 rs1 where b: "blend_routes phi best demand rs (add_aux_flow E es ?v) = (E1, rs1)"
    by (cases "blend_routes phi best demand rs (add_aux_flow E es ?v)")
  from Cons.prems(1) r b have e: "E' = E1" "rs' = (route, es, ?v) # rs1" by auto
  from add_aux_flow_nonneg [OF new_flow_nonneg Cons.prems(2)]
  have "list_all (\<lambda>e. 0 \<le> e_aux_flow e) (add_aux_flow E es ?v)" .
  from Cons.IH [OF b this] e show ?case by (simp add: new_flow_nonneg)
qed

lemma nonneg_table_lookup:
  "nonneg_table tab \<Longrightarrow> map_of tab od = Some rs \<Longrightarrow> list_all (\<lambda>(route, es, vna). 0 \<le> vna) rs"
  by (auto simp: nonneg_table_def list_all_iff dest!: map_of_SomeD)

lemma nonneg_table_update:
  "nonneg_table tab \<Longrightarrow> list_all (\<lambda>(route, es, vna). 0 \<le> vna) rs \<Longrightarrow>
   nonneg_table (AList.update od rs tab)"
  by (auto simp: nonneg_table_def list_all_iff dest!: in_set_updateD)

lemma route_update_nonneg:
  "list_all (\<lambda>(route, es, vna). 0 \<le> vna) rs \<Longrightarrow>
   list_all (\<lambda>(route, es, vna). 0 \<le> vna) (AList.update r (es, 0 :: real) rs)"
  by (auto simp: list_all_iff dest!: in_set_updateD)

lemma all_or_nothing_nonneg:
  "all_or_nothing N E ods mr tab = Returns (N', mr', tab') \<Longrightarrow> nonneg_table tab \<Longrightarrow>
   nonneg_table tab'"
proof (induction ods arbitrary: N mr tab)
  case Nil
  then show ?case by simp
next
  case (Cons od1 ods)
  from Cons.prems obtain ns route_str route where
    sr: "shortest_route N E od1 = Returns (ns, route_str, route)"
    by (cases "shortest_route N E od1") auto
  from Cons.prems sr obtain rs where rs: "map_of tab od1 = Some rs"
    by (cases "map_of tab od1") auto
  let ?tab1 = "if route_str \<in> fst ` set rs then tab
               else AList.update od1 (AList.update route_str (route, 0) rs) tab"
  from Cons.prems sr rs
  have a: "all_or_nothing ns E ods (AList.update od1 (route_str, route) mr) ?tab1
          = Returns (N', mr', tab')" by simp
  have "nonneg_table ?tab1"
    using nonneg_table_update [OF Cons.prems(2)
        route_update_nonneg [OF nonneg_table_lookup [OF Cons.prems(2) rs]]] Cons.prems(2)
    by simp
  from Cons.IH [OF a this] show ?case .
qed

lemma blend_nonneg:
  "blend phi OD mr E tab = Returns (E', tab') \<Longrightarrow> nonneg_table tab \<Longrightarrow>
   list_all (\<lambda>e. 0 \<le> e_aux_flow e) E \<Longrightarrow>
   nonneg_table tab' \<and> list_all (\<lambda>e. 0 \<le> e_aux_flow e) E'"
proof (induction OD arbitrary: E tab)
  case Nil
  then show ?case by simp
next
  case (Cons p OD)
  obtain od1 demand where p: "p = (od1, demand)" by (cases p)
  from Cons.prems p obtain rs where rs: "map_of tab od1 = Some rs"
    by (cases "map_of tab od1") auto
  show ?case
  proof (cases "rs = []")
    case True
    with Cons p rs show ?thesis by simp
  next
    case False
    from Cons.prems p rs False obtain best r0 where b: "map_of mr od1 = Some (best, r0)"
      by (cases "map_of mr od1") auto
    obtain E1 rs1 where br: "blend_routes phi best demand rs E = (E1, rs1)"
      by (cases "blend_routes phi best demand rs E")
    from Cons.prems p rs False b br
    have bl: "blend phi OD mr E1 (AList.update od1 rs1 tab) = Returns (E', tab')" by simp
    from blend_routes_nonneg [OF br Cons.prems(3)]
    have n1: "list_all (\<lambda>e. 0 \<le> e_aux_flow e) E1"
      and n2: "list_all (\<lambda>(route, es, vna). 0 \<le> vna) rs1" by auto
    from Cons.IH [OF bl nonneg_table_update [OF Cons.prems(2) n2] n1] show ?thesis .
  qed
qed

lemma msa_iteration_nonneg:
  assumes "msa_iteration n OD (N, E, tab) = Returns (N', E', tab')" and "nonneg_table tab"
  shows "nonneg_table tab' \<and> list_all (\<lambda>e. 0 \<le> e_flow e) E'"
proof -
  from assms obtain N1 mr tab1 where
    a: "all_or_nothing N (clear_aux E) (map fst OD) [] tab = Returns (N1, mr, tab1)"
    by (cases "all_or_nothing N (clear_aux E) (map fst OD) [] tab")
       (auto simp: msa_iteration_def split: if_splits)
  with assms obtain E2 where
    b: "blend (1 / real n) OD mr (clear_aux E) tab1 = Returns (E2, tab')"
    and E': "E' = apply_flows E2"
    by (cases "blend (1 / real n) OD mr (clear_aux E) tab1")
       (auto simp: msa_iteration_def split: if_splits)
  have "list_all (\<lambda>e. 0 \<le> e_aux_flow e) (clear_aux E)"
    by (simp add: clear_aux_def list_all_iff)
  from blend_nonneg [OF b all_or_nothing_nonneg [OF a assms(2)] this]
  show ?thesis unfolding E' by (simp add: apply_flows_def update_cost_def list_all_iff)
qed

lemma msa_loop_nonneg:
  "nonneg_flows E tab \<Longrightarrow> msa_loop n k OD (N, E, tab) = Returns (N', E', tab') \<Longrightarrow>
   nonneg_flows E' tab'"
proof (induction k arbitrary: n N E tab)
  case 0
  then show ?case by simp
next
  case (Suc k)
  from Suc.prems obtain N1 E1 tab1 where
    i: "msa_iteration n OD (N, E, tab) = Returns (N1, E1, tab1)"
    by (cases "msa_iteration n OD (N, E, tab)") auto
  with Suc.prems have l: "msa_loop (Suc n) k OD (N1, E1, tab1) = Returns (N', E', tab')" by simp
  from Suc.prems(1) have "nonneg_table tab" by (simp add: nonneg_flows_def)
  from msa_iteration_nonneg [OF i this] have "nonneg_flows E1 tab1"
    by (simp add: nonneg_flows_def)
  from Suc.IH [OF this l] show ?case .
qed


definition route_load :: "route_table \<Rightarrow> nat \<Rightarrow> real" where
  "route_load rs i = (\<Sum>(route, es, vna) \<leftarrow> rs. of_nat (count_list es i) * vna)"


definition blended :: "real \<Rightarrow> string option \<Rightarrow> real \<Rightarrow> route_table \<Rightarrow> route_table" where
  "blended phi best demand rs =
     map (\<lambda>(route, es, vna).
            (route, es, max ((1 - phi) * vna + phi * (if Some route = best then demand else 0)) 0)) rs"

lemma add_aux_flow_aux:
  "i < length E \<Longrightarrow>
   e_aux_flow (add_aux_flow E es v ! i) = e_aux_flow (E ! i) + of_nat (count_list es i) * v"
proof (induction es arbitrary: E)
  case Nil
  then show ?case by simp
next
  case (Cons j es)
  let ?E1 = "E[j := (E ! j)\<lparr>e_aux_flow := e_aux_flow (E ! j) + v\<rparr>]"
  from Cons.prems have "i < length ?E1" by simp
  from Cons.IH [OF this]
  have "e_aux_flow (add_aux_flow ?E1 es v ! i)
      = e_aux_flow (?E1 ! i) + of_nat (count_list es i) * v" .
  moreover have "e_aux_flow (?E1 ! i) = e_aux_flow (E ! i) + (if j = i then v else 0)"
    using Cons.prems by (auto simp: nth_list_update)
  ultimately show ?case by (simp add: algebra_simps)
qed

lemma add_aux_flow_other:
  "map e_flow (add_aux_flow E es v) = map e_flow E \<and> map e_fn (add_aux_flow E es v) = map e_fn E
   \<and> map e_cost (add_aux_flow E es v) = map e_cost E"
proof (induction es arbitrary: E)
  case Nil
  then show ?case by simp
next
  case (Cons j es)
  let ?E1 = "E[j := (E ! j)\<lparr>e_aux_flow := e_aux_flow (E ! j) + v\<rparr>]"
  have "map e_flow ?E1 = map e_flow E \<and> map e_fn ?E1 = map e_fn E \<and> map e_cost ?E1 = map e_cost E"
    by (cases "j < length E") (auto intro!: nth_equalityI simp: nth_list_update)
  with Cons.IH [of ?E1] show ?case by simp
qed

lemma blend_routes_eq:
  "blend_routes phi best demand rs E = (E', rs') \<Longrightarrow>
   rs' = blended phi (Some best) demand rs \<and> length E' = length E
   \<and> (\<forall>i<length E. e_aux_flow (E' ! i) = e_aux_flow (E ! i) + route_load rs' i)
   \<and> map e_flow E' = map e_flow E \<and> map e_fn E' = map e_fn E"
proof (induction rs arbitrary: E E' rs')
  case Nil
  then show ?case by (simp add: blended_def route_load_def)
next
  case (Cons r rs)
  obtain route es vna where r: "r = (route, es, vna)" by (cases r)
  let ?v = "new_flow phi (if route = best then demand else 0) vna"
  obtain E1 rs1 where b: "blend_routes phi best demand rs (add_aux_flow E es ?v) = (E1, rs1)"
    by (cases "blend_routes phi best demand rs (add_aux_flow E es ?v)")
  from Cons.prems(1) r b have e: "E' = E1" "rs' = (route, es, ?v) # rs1" by auto
  from Cons.IH [OF b] have ih: "rs1 = blended phi (Some best) demand rs"
    "length E1 = length E"
    "\<forall>i<length E. e_aux_flow (E1 ! i) = e_aux_flow (add_aux_flow E es ?v ! i) + route_load rs1 i"
    "map e_flow E1 = map e_flow E" "map e_fn E1 = map e_fn E"
    by (simp_all add: add_aux_flow_length add_aux_flow_other)
  have "rs' = blended phi (Some best) demand (r # rs)"
    using e ih(1) r by (simp add: blended_def new_flow_def)
  moreover have "\<forall>i<length E. e_aux_flow (E' ! i) = e_aux_flow (E ! i) + route_load rs' i"
    using e ih(3) by (simp add: add_aux_flow_aux route_load_def)
  ultimately show ?case using e ih(2,4,5) r by simp
qed



lemma blend_keeps_flow:
  "blend phi OD mr E tab = Returns (E', tab') \<Longrightarrow> map e_flow E' = map e_flow E"
proof (induction OD arbitrary: E tab)
  case Nil
  then show ?case by simp
next
  case (Cons p OD)
  obtain od1 demand where p: "p = (od1, demand)" by (cases p)
  from Cons.prems p obtain rs where rs: "map_of tab od1 = Some rs"
    by (cases "map_of tab od1") auto
  show ?case
  proof (cases "rs = []")
    case True
    with Cons p rs show ?thesis by simp
  next
    case False
    from Cons.prems p rs False obtain best r0 where b: "map_of mr od1 = Some (best, r0)"
      by (cases "map_of mr od1") auto
    obtain E1 rs1 where br: "blend_routes phi best demand rs E = (E1, rs1)"
      by (cases "blend_routes phi best demand rs E")
    from Cons.prems p rs False b br
    have "blend phi OD mr E1 (AList.update od1 rs1 tab) = Returns (E', tab')" by simp
    from Cons.IH [OF this] blend_routes_eq [OF br] show ?thesis by simp
  qed
qed

section \<open>Shortest routes read topology and costs only\<close>

definition same_graph :: "edge list \<Rightarrow> edge list \<Rightarrow> bool" where
  "same_graph E E' \<longleftrightarrow>
     map e_start E' = map e_start E \<and> map e_end E' = map e_end E \<and> map e_cost E' = map e_cost E"

lemma same_graph_nth:
  assumes "same_graph E E'"
  shows "length E' = length E"
    and "i < length E \<Longrightarrow> e_start (E' ! i) = e_start (E ! i)"
    and "i < length E \<Longrightarrow> e_end (E' ! i) = e_end (E ! i)"
    and "i < length E \<Longrightarrow> e_cost (E' ! i) = e_cost (E ! i)"
proof -
  from assms have m: "map e_start E' = map e_start E" "map e_end E' = map e_end E"
    "map e_cost E' = map e_cost E" by (simp_all add: same_graph_def)
  from m(1) show l: "length E' = length E" by (rule map_eq_imp_length_eq)
  { assume "i < length E"
    with l m(1) show "e_start (E' ! i) = e_start (E ! i)" by (metis nth_map) }
  { assume "i < length E"
    with l m(2) show "e_end (E' ! i) = e_end (E ! i)" by (metis nth_map) }
  { assume "i < length E"
    with l m(3) show "e_cost (E' ! i) = e_cost (E ! i)" by (metis nth_map) }
qed

lemma same_graph_clear_aux: "same_graph E (clear_aux E)"
  by (simp add: same_graph_def clear_aux_def)

lemma pickEdgesList_same:
  "same_graph E E' \<Longrightarrow> pickEdgesList u E' = pickEdgesList u E"
  unfolding pickEdgesList_def
  by (simp add: same_graph_nth(1)) (rule filter_cong, simp_all add: same_graph_nth(2))

lemma relax_edges_same:
  "same_graph E E' \<Longrightarrow> set uv \<subseteq> {..<length E} \<Longrightarrow>
   relax_edges ns E' ig u uv n = relax_edges ns E ig u uv n"
proof (induction uv arbitrary: ns n)
  case Nil
  then show ?case by simp
next
  case (Cons ei uv)
  from Cons.prems have "ei < length E" by simp
  with Cons.prems(1) have e: "e_end (E' ! ei) = e_end (E ! ei)" "e_cost (E' ! ei) = e_cost (E ! ei)"
    by (simp_all add: same_graph_nth)
  from Cons have ih: "\<And>ns n. relax_edges ns E' ig u uv n = relax_edges ns E ig u uv n"
    by simp
  show ?case by (simp only: relax_edges.simps e ih)
qed

lemma dijkstra_loop_same:
  "same_graph E E' \<Longrightarrow> dijkstra_loop ns E' ig dest u = dijkstra_loop ns E ig dest u"
proof (induction ns E ig dest u rule: dijkstra_loop.induct)
  case (1 ns E ig dest u)
  let ?uv = "pickEdgesList (settle ns u ! u) E"
  have r: "relax_edges (settle ns u) E' ig u (pickEdgesList (settle ns u ! u) E') None
      = relax_edges (settle ns u) E ig u ?uv None"
    using relax_edges_same [OF "1.prems" pickEdgesList_set] pickEdgesList_same [OF "1.prems"]
    by simp
  show ?case
  proof (cases "relax_edges (settle ns u) E ig u ?uv None")
    case (Returns ns2)
    from r Returns have r': "relax_edges (settle ns u) E' ig u
        (pickEdgesList (settle ns u ! u) E') None = Returns ns2" by simp
    show ?thesis
    proof (cases "pickSmallestNode ns2")
      case None
      from dijkstra_loop_done [OF Returns None] dijkstra_loop_done [OF r' None]
      show ?thesis by simp
    next
      case (Some v)
      show ?thesis
      proof (cases "dest = Some v")
        case True
        from dijkstra_loop_break [OF Returns Some] dijkstra_loop_break [OF r' Some] True
        show ?thesis by simp
      next
        case False
        then have f: "Some v \<noteq> dest" by auto
        from "1.IH" [OF Returns Some f "1.prems"]
          dijkstra_loop_next [OF Returns Some False] dijkstra_loop_next [OF r' Some False]
        show ?thesis by simp
      qed
    qed
  next
    case (Raises e)
    from r Raises have r': "relax_edges (settle ns u) E' ig u
        (pickEdgesList (settle ns u ! u) E') None = Raises e" by simp
    from dijkstra_loop_raises [OF Raises] dijkstra_loop_raises [OF r']
    show ?thesis by simp
  next
    case Diverges
    with relax_edges_outcome [of "settle ns u" E ig u ?uv None] show ?thesis by simp
  qed
qed

lemma dijkstra_same: "same_graph E E' \<Longrightarrow> dijkstra N E' a b ig = dijkstra N E a b ig"
  unfolding dijkstra_def dijkstra_search_def
  by (simp only: dijkstra_loop_same [of E E'])

lemma first_index_cong:
  "length ys = length xs \<Longrightarrow> (\<And>i. i < length xs \<Longrightarrow> Q (ys ! i) = P (xs ! i)) \<Longrightarrow>
   first_index Q ys = first_index P xs"
proof (induction xs arbitrary: ys)
  case Nil
  then show ?case by simp
next
  case (Cons x xs)
  then obtain y ys' where ys: "ys = y # ys'" by (cases ys) auto
  from Cons.prems(2) [of 0] ys have h: "Q y = P x" by simp
  have "first_index Q ys' = first_index P xs"
  proof (rule Cons.IH)
    from Cons.prems(1) ys show "length ys' = length xs" by simp
    fix i assume "i < length xs"
    with Cons.prems(2) [of "Suc i"] ys show "Q (ys' ! i) = P (xs ! i)" by simp
  qed
  with h ys show ?case by simp
qed

lemma getPathAsEdges_same:
  "same_graph E E' \<Longrightarrow> getPathAsEdges ns E' prev P = getPathAsEdges ns E prev P"
proof (induction P arbitrary: prev)
  case Nil
  then show ?case by simp
next
  case (Cons nd P)
  have "\<And>p. first_index (\<lambda>e. e_start e = n_name (ns ! p) \<and> e_end e = n_name (ns ! nd)) E'
      = first_index (\<lambda>e. e_start e = n_name (ns ! p) \<and> e_end e = n_name (ns ! nd)) E"
    using Cons.prems by (intro first_index_cong) (simp_all add: same_graph_nth)
  with Cons show ?case by (simp split: option.splits)
qed

lemma getPathAsEdges_bound:
  "getPathAsEdges ns E prev P = Returns route \<Longrightarrow> set route \<subseteq> {..<length E}"
proof (induction P arbitrary: prev route)
  case Nil
  then show ?case by simp
next
  case (Cons nd P)
  show ?case
  proof (cases prev)
    case None
    with Cons show ?thesis by simp
  next
    case (Some p)
    with Cons.prems obtain i where
      i: "first_index (\<lambda>e. e_start e = n_name (ns ! p) \<and> e_end e = n_name (ns ! nd)) E = Some i"
      by (cases "first_index (\<lambda>e. e_start e = n_name (ns ! p) \<and> e_end e = n_name (ns ! nd)) E")
         auto
    with Cons.prems Some obtain path where
      p: "getPathAsEdges ns E (Some nd) P = Returns path" and r: "route = i # path"
      by (cases "getPathAsEdges ns E (Some nd) P") auto
    from Cons.IH [OF p] first_index_Some [OF i] r show ?thesis by simp
  qed
qed

lemma pathToStr_same:
  "same_graph E E' \<Longrightarrow> set route \<subseteq> {..<length E} \<Longrightarrow> pathToStr route E' = pathToStr route E"
proof -
  assume a: "same_graph E E'" "set route \<subseteq> {..<length E}"
  have "map (\<lambda>i. edge_name (E' ! i)) route = map (\<lambda>i. edge_name (E ! i)) route"
    using a by (intro map_cong) (auto simp: edge_name_def same_graph_nth)
  then show ?thesis by (simp only: pathToStr_def)
qed

lemma shortest_route_same:
  assumes "same_graph E E'"
  shows "shortest_route N E' od = shortest_route N E od"
proof (cases "split_on CHR ''|'' od")
  case Nil
  then show ?thesis by (simp add: shortest_route_def)
next
  case (Cons a as)
  show ?thesis
  proof (cases "\<exists>b. as = [b]")
    case False
    with Cons show ?thesis by (auto simp: shortest_route_def split: list.splits)
  next
    case True
    then obtain b where as: "as = [b]" by blast
    show ?thesis
    proof (cases "dijkstra N E a b []")
      case (Returns x)
      obtain ns P where x: "x = (ns, P)" by (cases x)
      show ?thesis
      proof (cases "getPathAsEdges ns E None P")
        case (Returns route)
        from getPathAsEdges_bound [OF this] pathToStr_same [OF assms]
        have "pathToStr route E' = pathToStr route E" by simp
        with Returns \<open>dijkstra N E a b [] = Returns x\<close> x Cons as show ?thesis
          by (simp add: shortest_route_def dijkstra_same [OF assms] getPathAsEdges_same [OF assms])
      next
        case (Raises e)
        with \<open>dijkstra N E a b [] = Returns x\<close> x Cons as show ?thesis
          by (simp add: shortest_route_def dijkstra_same [OF assms] getPathAsEdges_same [OF assms])
      next
        case Diverges
        with \<open>dijkstra N E a b [] = Returns x\<close> x Cons as show ?thesis
          by (simp add: shortest_route_def dijkstra_same [OF assms] getPathAsEdges_same [OF assms])
      qed
    next
      case (Raises e)
      with Cons as show ?thesis by (simp add: shortest_route_def dijkstra_same [OF assms])
    next
      case Diverges
      with Cons as show ?thesis by (simp add: shortest_route_def dijkstra_same [OF assms])
    qed
  qed
qed



lemma resetGraph_names_only: "map n_name N = map n_name N2 \<Longrightarrow> resetGraph N = resetGraph N2"
proof (induction N arbitrary: N2)
  case Nil
  then show ?case by (simp add: resetGraph_def)
next
  case (Cons nd N)
  then obtain nd2 N2' where n2: "N2 = nd2 # N2'" by (cases N2) auto
  with Cons.prems have "n_name nd = n_name nd2" "map n_name N = map n_name N2'" by auto
  with Cons.IH [of N2'] n2 show ?case
    by (cases nd, cases nd2) (simp add: resetGraph_def)
qed

lemma dijkstra_names_only:
  "map n_name N = map n_name N2 \<Longrightarrow> dijkstra N E a b ig = dijkstra N2 E a b ig"
  by (simp add: dijkstra_def dijkstra_search_def resetGraph_names_only [of N N2])

lemma dijkstra_loop_names:
  "dijkstra_loop ns E ig dest u = Returns ns' \<Longrightarrow> map n_name ns' = map n_name ns"
proof (induction ns E ig dest u rule: dijkstra_loop.induct)
  case (1 ns E ig dest u)
  let ?uv = "pickEdgesList (settle ns u ! u) E"
  from "1.prems" obtain ns2 where r: "relax_edges (settle ns u) E ig u ?uv None = Returns ns2"
    by (cases "relax_edges (settle ns u) E ig u ?uv None")
       (auto simp: dijkstra_loop.simps [of ns E ig dest u])
  from relax_edges_names [OF r] have n2: "map n_name ns2 = map n_name ns"
    by (simp add: settle_names)
  show ?case
  proof (cases "pickSmallestNode ns2")
    case None
    from dijkstra_loop_done [OF r None, of dest] "1.prems" n2 show ?thesis by simp
  next
    case (Some v)
    show ?thesis
    proof (cases "dest = Some v")
      case True
      from dijkstra_loop_break [OF r Some] True "1.prems" n2 show ?thesis by simp
    next
      case False
      then have f: "Some v \<noteq> dest" by auto
      from dijkstra_loop_next [OF r Some False] "1.prems"
      have "dijkstra_loop ns2 E ig dest v = Returns ns'" by simp
      from "1.IH" [OF r Some f this] n2 show ?thesis by simp
    qed
  qed
qed

lemma dijkstra_names:
  assumes "dijkstra N E a b ig = Returns (ns, P)"
  shows "map n_name ns = map n_name N"
proof -
  let ?ns0 = "init_nodes a (resetGraph N)"
  have n0: "map n_name ?ns0 = map n_name N" by (simp only: init_nodes_names resetGraph_names)
  from assms obtain dest where s: "dijkstra_search N E a b ig = Returns (ns, dest)"
    by (cases "dijkstra_search N E a b ig")
       (auto simp: dijkstra_def split: option.splits)
  show ?thesis
  proof (cases "pickSmallestNode ?ns0")
    case None
    with s n0 show ?thesis by (auto simp: dijkstra_search_def Let_def)
  next
    case (Some u)
    with s have "dijkstra_loop ?ns0 E ig (find_dest b ?ns0 0 None) u = Returns ns"
      by (cases "dijkstra_loop ?ns0 E ig (find_dest b ?ns0 0 None) u")
         (auto simp: dijkstra_search_def Let_def)
    from dijkstra_loop_names [OF this] n0 show ?thesis by simp
  qed
qed

lemma shortest_route_names_only:
  "map n_name N = map n_name N2 \<Longrightarrow> shortest_route N E od = shortest_route N2 E od"
  by (simp add: shortest_route_def dijkstra_names_only [of N N2] split: list.splits)

lemma shortest_route_names:
  assumes "shortest_route N E od = Returns (ns, route_str, route)"
  shows "map n_name ns = map n_name N"
proof -
  from assms obtain a b where sp: "split_on CHR ''|'' od = [a, b]"
    by (auto simp: shortest_route_def split: list.splits)
  with assms obtain x where d: "dijkstra N E a b [] = Returns x"
    by (cases "dijkstra N E a b []") (auto simp: shortest_route_def)
  obtain ns1 P where x: "x = (ns1, P)" by (cases x)
  with assms sp d obtain r1 where "getPathAsEdges ns1 E None P = Returns r1"
    by (cases "getPathAsEdges ns1 E None P") (auto simp: shortest_route_def)
  with assms sp d x have "ns = ns1"
    by (cases "pathToStr r1 E") (auto simp: shortest_route_def)
  with dijkstra_names d x show ?thesis by simp
qed

lemma all_or_nothing_records:
  "all_or_nothing N E ods mr tab = Returns (N', mr', tab') \<Longrightarrow> distinct ods \<Longrightarrow>
   map n_name N' = map n_name N
   \<and> (\<forall>od\<in>set ods. \<exists>ns route_str route.
         shortest_route N E od = Returns (ns, route_str, route)
         \<and> map_of mr' od = Some (route_str, route))
   \<and> (\<forall>od. od \<notin> set ods \<longrightarrow> map_of mr' od = map_of mr od)"
proof (induction ods arbitrary: N mr tab)
  case Nil
  then show ?case by simp
next
  case (Cons od1 ods)
  from Cons.prems obtain ns route_str route where
    sr: "shortest_route N E od1 = Returns (ns, route_str, route)"
    by (cases "shortest_route N E od1") auto
  from Cons.prems sr obtain rs where rs: "map_of tab od1 = Some rs"
    by (cases "map_of tab od1") auto
  let ?tab1 = "if route_str \<in> fst ` set rs then tab
               else AList.update od1 (AList.update route_str (route, 0) rs) tab"
  let ?mr1 = "AList.update od1 (route_str, route) mr"
  from Cons.prems sr rs
  have a: "all_or_nothing ns E ods ?mr1 ?tab1 = Returns (N', mr', tab')" by simp
  from Cons.prems have d: "distinct ods" and notin: "od1 \<notin> set ods" by auto
  from shortest_route_names [OF sr] have nn: "map n_name ns = map n_name N" .
  from Cons.IH [OF a d] have ih: "map n_name N' = map n_name ns"
    "\<forall>od\<in>set ods. \<exists>ns' route_str route.
         shortest_route ns E od = Returns (ns', route_str, route)
         \<and> map_of mr' od = Some (route_str, route)"
    "\<forall>od. od \<notin> set ods \<longrightarrow> map_of mr' od = map_of ?mr1 od" by auto
  from ih(3) notin have "map_of mr' od1 = Some (route_str, route)"
    by (simp add: update_conv')
  with sr have c1: "\<exists>ns route_str route.
         shortest_route N E od1 = Returns (ns, route_str, route)
         \<and> map_of mr' od1 = Some (route_str, route)" by blast
  have c2: "\<forall>od\<in>set ods. \<exists>ns' route_str route.
         shortest_route N E od = Returns (ns', route_str, route)
         \<and> map_of mr' od = Some (route_str, route)"
    using ih(2) shortest_route_names_only [OF nn] by simp
  have c3: "\<forall>od. od \<notin> set (od1 # ods) \<longrightarrow> map_of mr' od = map_of mr od"
    using ih(3) by (simp add: update_conv')
  from ih(1) nn c1 c2 c3 show ?case by simp
qed

section \<open>The iterations\<close>

text \<open>A network of one edge \<open>a-b\<close> with cost \<open>1 + flow\<close>, and its state after one iteration with demand 10.\<close>

definition line_N :: "node list" where
  "line_N = [Node ''a'', Node ''b'']"

definition line_E :: "edge list" where
  "line_E = [Edge ''a'' ''b'' (\<lambda>x. 1 + x)]"

definition line_N1 :: "node list" where
  "line_N1 = [\<lparr>n_name = ''a'', n_dist = 0, n_prev = None, n_flag = 1\<rparr>,
              \<lparr>n_name = ''b'', n_dist = 1, n_prev = Some 0, n_flag = 0\<rparr>]"

definition line_E1 :: "edge list" where
  "line_E1 = [\<lparr>e_start = ''a'', e_end = ''b'', e_fn = \<lambda>x. 1 + x, e_flow = 10, e_cost = 11,
               e_aux_flow = 10\<rparr>]"

lemmas msa_eval =
  msa_iteration_def Node_def Edge_def update_cost_def clear_aux_def apply_flows_def
  shortest_route_def dijkstra_def dijkstra_search_def resetGraph_def pickSmallestNode_def
  dijkstra_loop.simps settle_def pickEdgesList_def walk_back.simps pathToStr_def edge_name_def
  new_flow_def

lemma line_iteration:
  "msa_iteration 1 [(''a|b'', 10)] (line_N, line_E, [(''a|b'', [])])
     = Returns (line_N1, line_E1, [(''a|b'', [(''a-b'', [0], 10)])])"
  by (simp add: line_N_def line_E_def line_N1_def line_E1_def msa_eval)


text \<open>
  C2. An iteration that returns has first run the all-or-nothing step for all pairs on
  edges whose flows and costs are those the iteration started with (only the auxiliary
  flows were cleared): the best route recorded for every pair is the shortest route on
  the edges \<open>E\<close> as they were before the iteration. Only then are the flows blended
  and, last, the edge flows and costs replaced.
\<close>

theorem msa_iteration_snapshot:
  assumes "distinct (map fst OD)"
    and "msa_iteration n OD (N, E, tab) = Returns (N', E', tab')"
  shows "\<exists>min_routes tab1 E2.
      all_or_nothing N (clear_aux E) (map fst OD) [] tab = Returns (N', min_routes, tab1)
    \<and> map e_flow (clear_aux E) = map e_flow E \<and> map e_cost (clear_aux E) = map e_cost E
    \<and> (\<forall>od\<in>set (map fst OD). \<exists>ns route_str route.
          shortest_route N E od = Returns (ns, route_str, route)
          \<and> map_of min_routes od = Some (route_str, route))
    \<and> blend (1 / real n) OD min_routes (clear_aux E) tab1 = Returns (E2, tab')
    \<and> E' = apply_flows E2"
proof -
  from assms(2) obtain N1 mr tab1 where
    a: "all_or_nothing N (clear_aux E) (map fst OD) [] tab = Returns (N1, mr, tab1)"
    by (cases "all_or_nothing N (clear_aux E) (map fst OD) [] tab")
       (auto simp: msa_iteration_def split: if_splits)
  with assms(2) obtain E2 where
    b: "blend (1 / real n) OD mr (clear_aux E) tab1 = Returns (E2, tab')"
    and E': "E' = apply_flows E2" and N1: "N1 = N'"
    by (cases "blend (1 / real n) OD mr (clear_aux E) tab1")
       (auto simp: msa_iteration_def split: if_splits)
  from all_or_nothing_records [OF a assms(1)]
  have "\<forall>od\<in>set (map fst OD). \<exists>ns route_str route.
         shortest_route N (clear_aux E) od = Returns (ns, route_str, route)
         \<and> map_of mr od = Some (route_str, route)" by blast
  then have "\<forall>od\<in>set (map fst OD). \<exists>ns route_str route.
         shortest_route N E od = Returns (ns, route_str, route)
         \<and> map_of mr od = Some (route_str, route)"
    by (simp only: shortest_route_same [OF same_graph_clear_aux])
  moreover have "map e_flow (clear_aux E) = map e_flow E \<and> map e_cost (clear_aux E) = map e_cost E"
    by (simp add: clear_aux_def)
  ultimately show ?thesis using a b E' N1 by blast
qed
theorem msa_iteration_snapshot_witness:
  "distinct (map fst [(''a|b'', 10 :: real)])
   \<and> msa_iteration 1 [(''a|b'', 10)] (line_N, line_E, [(''a|b'', [])])
        = Returns (line_N1, line_E1, [(''a|b'', [(''a-b'', [0], 10)])])
   \<and> (\<exists>min_routes tab1 E2.
        all_or_nothing line_N (clear_aux line_E) (map fst [(''a|b'', 10 :: real)]) []
            [(''a|b'', [])] = Returns (line_N1, min_routes, tab1)
      \<and> (\<exists>ns route_str route.
            shortest_route line_N line_E ''a|b'' = Returns (ns, route_str, route)
            \<and> map_of min_routes ''a|b'' = Some (route_str, route))
      \<and> blend (1 / real 1) [(''a|b'', 10)] min_routes (clear_aux line_E) tab1
            = Returns (E2, [(''a|b'', [(''a-b'', [0], 10)])])
      \<and> line_E1 = apply_flows E2)"
proof -
  have d: "distinct (map fst [(''a|b'', 10 :: real)])" by simp
  from msa_iteration_snapshot [OF d line_iteration] d line_iteration
  show ?thesis by simp blast
qed


text \<open>
  C4. When the edge flows and the route flows are non-negative at the start, they are
  so after any number of iterations, and within an iteration after the all-or-nothing
  step, after the blending of the flows and after the replacement of the edge flows.
  (The demands need not be non-negative for this: route flows are cut off at 0.)
\<close>

theorem msa_flows_nonneg:
  assumes "nonneg_flows E tab"
  shows "(msa_loop n k OD (N, E, tab) = Returns (N', E', tab') \<longrightarrow> nonneg_flows E' tab')
    \<and> (all_or_nothing N (clear_aux E) ods mr tab = Returns (N1, mr1, tab1) \<longrightarrow>
         nonneg_flows (clear_aux E) tab1
         \<and> (blend phi OD mr1 (clear_aux E) tab1 = Returns (E2, tab2) \<longrightarrow>
              nonneg_flows E2 tab2 \<and> nonneg_flows (apply_flows E2) tab2))"
proof (intro conjI impI)
  assume "msa_loop n k OD (N, E, tab) = Returns (N', E', tab')"
  with assms show "nonneg_flows E' tab'" by (rule msa_loop_nonneg)
next
  assume a: "all_or_nothing N (clear_aux E) ods mr tab = Returns (N1, mr1, tab1)"
  from assms have t: "nonneg_table tab" by (simp add: nonneg_flows_def)
  from assms all_or_nothing_nonneg [OF a t]
  show n1: "nonneg_flows (clear_aux E) tab1"
    by (simp add: nonneg_flows_def clear_aux_def list_all_iff)
  assume b: "blend phi OD mr1 (clear_aux E) tab1 = Returns (E2, tab2)"
  have "list_all (\<lambda>e. 0 \<le> e_aux_flow e) (clear_aux E)"
    by (simp add: clear_aux_def list_all_iff)
  from blend_nonneg [OF b all_or_nothing_nonneg [OF a t] this]
  have n2: "nonneg_table tab2" "list_all (\<lambda>e. 0 \<le> e_aux_flow e) E2" by auto
  from blend_keeps_flow [OF b] n1 have "list_all (\<lambda>e. 0 \<le> e_flow e) E2"
    by (simp add: nonneg_flows_def list_all_iff) (metis (mono_tags, lifting) image_iff image_set)
  with n2 show "nonneg_flows E2 tab2" by (simp add: nonneg_flows_def)
  from n2 show "nonneg_flows (apply_flows E2) tab2"
    by (simp add: nonneg_flows_def apply_flows_def update_cost_def list_all_iff)
qed

lemma line_loop:
  "msa_loop 1 2 [(''a|b'', 10)] (line_N, line_E, [(''a|b'', [])])
     = Returns ([\<lparr>n_name = ''a'', n_dist = 0, n_prev = None, n_flag = 1\<rparr>,
                 \<lparr>n_name = ''b'', n_dist = 11, n_prev = Some 0, n_flag = 0\<rparr>],
                line_E1, [(''a|b'', [(''a-b'', [0], 10)])])"
  by (simp add: line_N_def line_E_def line_E1_def msa_eval numeral_2_eq_2)

theorem msa_flows_nonneg_witness:
  "nonneg_flows line_E [(''a|b'', [])]
   \<and> msa_loop 1 2 [(''a|b'', 10)] (line_N, line_E, [(''a|b'', [])])
     = Returns ([\<lparr>n_name = ''a'', n_dist = 0, n_prev = None, n_flag = 1\<rparr>,
                 \<lparr>n_name = ''b'', n_dist = 11, n_prev = Some 0, n_flag = 0\<rparr>],
                line_E1, [(''a|b'', [(''a-b'', [0], 10)])])
   \<and> nonneg_flows line_E1 [(''a|b'', [(''a-b'', [0], 10)])]"
proof -
  have h: "nonneg_flows line_E [(''a|b'', [])]"
    by (simp add: nonneg_flows_def nonneg_table_def line_E_def Edge_def update_cost_def)
  from msa_flows_nonneg [OF h, of 1 2 "[(''a|b'', 10)]" line_N] line_loop h
  show ?thesis by simp
qed


section \<open>The network of two nodes\<close>












section \<open>Unreachable destinations\<close>

inductive reach :: "edge list \<Rightarrow> string \<Rightarrow> string \<Rightarrow> bool"
  for E :: "edge list" and a :: string
where
  reach_origin: "reach E a a"
| reach_edge: "reach E a b \<Longrightarrow> e \<in> set E \<Longrightarrow> e_start e = b \<Longrightarrow> e_end e = c \<Longrightarrow> reach E a c"

code_pred reach .

definition labels_inv :: "string set \<Rightarrow> node list \<Rightarrow> bool" where
  "labels_inv S ns \<longleftrightarrow>
     (\<forall>j<length ns. n_dist (ns ! j) \<le> 1000000
        \<and> (n_prev (ns ! j) \<noteq> None \<or> n_dist (ns ! j) < 1000000 \<longrightarrow> n_name (ns ! j) \<in> S))"

lemma labels_inv_init:
  "origin \<in> S \<Longrightarrow> labels_inv S (init_nodes origin (resetGraph N))"
proof -
  assume o: "origin \<in> S"
  have "\<And>ns. (\<forall>nd\<in>set ns. n_dist nd = 1000000 \<and> n_prev nd = None) \<Longrightarrow>
      \<forall>nd\<in>set (init_nodes origin ns). n_dist nd \<le> 1000000
        \<and> (n_prev nd \<noteq> None \<or> n_dist nd < 1000000 \<longrightarrow> n_name nd \<in> S)"
  proof -
    fix ns :: "node list"
    show "(\<forall>nd\<in>set ns. n_dist nd = 1000000 \<and> n_prev nd = None) \<Longrightarrow>
      \<forall>nd\<in>set (init_nodes origin ns). n_dist nd \<le> 1000000
        \<and> (n_prev nd \<noteq> None \<or> n_dist nd < 1000000 \<longrightarrow> n_name nd \<in> S)"
      using o by (induction ns) auto
  qed
  moreover have "\<forall>nd\<in>set (resetGraph N). n_dist nd = 1000000 \<and> n_prev nd = None"
    by (auto simp: resetGraph_def)
  ultimately have "\<forall>nd\<in>set (init_nodes origin (resetGraph N)). n_dist nd \<le> 1000000
        \<and> (n_prev nd \<noteq> None \<or> n_dist nd < 1000000 \<longrightarrow> n_name nd \<in> S)" by blast
  then show ?thesis by (simp add: labels_inv_def)
qed

lemma labels_inv_settle: "labels_inv S ns \<Longrightarrow> labels_inv S (settle ns u)"
  by (cases "u < length ns") (auto simp: labels_inv_def settle_def nth_list_update)

lemma relax_edges_inv:
  assumes closed: "\<forall>e\<in>set E. e_start e \<in> S \<longrightarrow> e_end e \<in> S"
    and nonneg: "\<forall>e\<in>set E. 0 \<le> e_cost e"
  shows "labels_inv S ns \<Longrightarrow> u < length ns \<Longrightarrow>
    \<forall>i\<in>set uv. i < length E \<and> e_start (E ! i) = n_name (ns ! u) \<Longrightarrow>
    \<forall>j. n = Some j \<longrightarrow> j < length ns \<and> (n_name (ns ! u) \<in> S \<longrightarrow> n_name (ns ! j) \<in> S) \<Longrightarrow>
    relax_edges ns E ig u uv n = Returns ns' \<Longrightarrow> labels_inv S ns'"
proof (induction uv arbitrary: ns n)
  case Nil
  then show ?case by simp
next
  case (Cons ei uv)
  from Cons.prems(3) have uv: "\<forall>i\<in>set uv. i < length E \<and> e_start (E ! i) = n_name (ns ! u)"
    and ei: "ei < length E" "e_start (E ! ei) = n_name (ns ! u)" by auto
  show ?case
  proof (cases "ei \<in> set ig")
    case True
    with Cons.prems(5) have "relax_edges ns E ig u uv n = Returns ns'" by simp
    from Cons.IH [OF Cons.prems(1,2) uv Cons.prems(4) this] show ?thesis .
  next
    case False
    let ?n' = "case first_index (\<lambda>nd. n_name nd = e_end (E ! ei)) ns of
                 Some j \<Rightarrow> Some j | None \<Rightarrow> n"
    from Cons.prems(5) False obtain j where j: "?n' = Some j"
      by (cases ?n') auto
    have jl: "j < length ns" and jS: "n_name (ns ! u) \<in> S \<Longrightarrow> n_name (ns ! j) \<in> S"
    proof -
      show "j < length ns"
      proof (cases "first_index (\<lambda>nd. n_name nd = e_end (E ! ei)) ns")
        case None
        with j Cons.prems(4) show ?thesis by simp
      next
        case (Some k)
        with j first_index_Some [OF Some] show ?thesis by simp
      qed
      assume uS: "n_name (ns ! u) \<in> S"
      show "n_name (ns ! j) \<in> S"
      proof (cases "first_index (\<lambda>nd. n_name nd = e_end (E ! ei)) ns")
        case None
        with j Cons.prems(4) uS show ?thesis by simp
      next
        case (Some k)
        with j first_index_Some [OF Some] have "n_name (ns ! j) = e_end (E ! ei)" by simp
        moreover from ei have "E ! ei \<in> set E" by simp
        ultimately show ?thesis using closed ei(2) uS by auto
      qed
    qed
    let ?c = "n_dist (ns ! u) + e_cost (E ! ei)"
    let ?ns1 = "if n_dist (ns ! j) > ?c
                then ns[j := (ns ! j)\<lparr>n_dist := ?c, n_prev := Some u\<rparr>]
                else ns"
    from Cons.prems(5) False j have r: "relax_edges ?ns1 E ig u uv (Some j) = Returns ns'"
      by simp
    have len: "length ?ns1 = length ns" by simp
    have names: "\<And>k. k < length ns \<Longrightarrow> n_name (?ns1 ! k) = n_name (ns ! k)"
      using jl by (auto simp: nth_list_update)
    have inv1: "labels_inv S ?ns1"
    proof (cases "n_dist (ns ! j) > ?c")
      case False
      with Cons.prems(1) show ?thesis by simp
    next
      case True
      from ei nonneg have "0 \<le> e_cost (E ! ei)" by simp
      with True have "n_dist (ns ! u) < n_dist (ns ! j)" by simp
      moreover from Cons.prems(1) jl have "n_dist (ns ! j) \<le> 1000000"
        by (simp add: labels_inv_def)
      ultimately have "n_dist (ns ! u) < 1000000" by simp
      with Cons.prems(1,2) have "n_name (ns ! u) \<in> S" by (simp add: labels_inv_def)
      then have "n_name (ns ! j) \<in> S" by (rule jS)
      moreover from True \<open>n_dist (ns ! j) \<le> 1000000\<close> have "?c \<le> 1000000" by simp
      ultimately show ?thesis using True Cons.prems(1) jl
        by (auto simp: labels_inv_def nth_list_update)
    qed
    have u1: "u < length ?ns1" using Cons.prems(2) by simp
    have uv1: "\<forall>i\<in>set uv. i < length E \<and> e_start (E ! i) = n_name (?ns1 ! u)"
      using uv names [OF Cons.prems(2)] by simp
    have n1: "\<forall>k. Some j = Some k \<longrightarrow> k < length ?ns1
        \<and> (n_name (?ns1 ! u) \<in> S \<longrightarrow> n_name (?ns1 ! k) \<in> S)"
      using jl jS names [OF Cons.prems(2)] names [OF jl] by simp
    from Cons.IH [OF inv1 u1 uv1 n1 r] show ?thesis .
  qed
qed

lemma pickEdgesList_start:
  "\<forall>i\<in>set (pickEdgesList nd E). i < length E \<and> e_start (E ! i) = n_name nd"
  by (auto simp: pickEdgesList_def)

lemma dijkstra_loop_inv:
  "\<forall>e\<in>set E. e_start e \<in> S \<longrightarrow> e_end e \<in> S \<Longrightarrow> \<forall>e\<in>set E. 0 \<le> e_cost e \<Longrightarrow>
   labels_inv S ns \<Longrightarrow> u < length ns \<Longrightarrow>
   dijkstra_loop ns E ig dest u = Returns ns' \<Longrightarrow> labels_inv S ns'"
proof (induction ns E ig dest u rule: dijkstra_loop.induct)
  case (1 ns E ig dest u)
  let ?uv = "pickEdgesList (settle ns u ! u) E"
  from "1.prems"(5) obtain ns2 where r: "relax_edges (settle ns u) E ig u ?uv None = Returns ns2"
    by (cases "relax_edges (settle ns u) E ig u ?uv None")
       (auto simp: dijkstra_loop.simps [of ns E ig dest u])
  have "u < length (settle ns u)" using "1.prems"(4) by (simp add: settle_def)
  from relax_edges_inv [OF "1.prems"(1,2) labels_inv_settle [OF "1.prems"(3)] this
      pickEdgesList_start _ r]
  have inv2: "labels_inv S ns2" by simp
  show ?case
  proof (cases "pickSmallestNode ns2")
    case None
    from dijkstra_loop_done [OF r None, of dest] "1.prems"(5) inv2 show ?thesis by simp
  next
    case (Some v)
    show ?thesis
    proof (cases "dest = Some v")
      case True
      from dijkstra_loop_break [OF r Some] True "1.prems"(5) inv2 show ?thesis by simp
    next
      case False
      then have f: "Some v \<noteq> dest" by auto
      from dijkstra_loop_next [OF r Some False] "1.prems"(5)
      have l: "dijkstra_loop ns2 E ig dest v = Returns ns'" by simp
      from pickSmallestNode_Some [OF Some] have "v < length ns2" by simp
      from "1.IH" [OF r Some f "1.prems"(1,2) inv2 this l] show ?thesis .
    qed
  qed
qed

lemma find_dest_present:
  "destination \<in> n_name ` set ns \<Longrightarrow>
   \<exists>j. find_dest destination ns i dest = Some (i + j) \<and> j < length ns
       \<and> n_name (ns ! j) = destination"
proof (induction ns arbitrary: i dest)
  case Nil
  then show ?case by simp
next
  case (Cons nd ns)
  show ?case
  proof (cases "destination \<in> n_name ` set ns")
    case True
    from Cons.IH [OF True, of "Suc i" "if n_name nd = destination then Some i else dest"]
    obtain j where "find_dest destination ns (Suc i)
        (if n_name nd = destination then Some i else dest) = Some (Suc i + j)"
      "j < length ns" "n_name (ns ! j) = destination" by blast
    then have "find_dest destination (nd # ns) i dest = Some (i + Suc j) \<and> Suc j < length (nd # ns)
       \<and> n_name ((nd # ns) ! Suc j) = destination" by simp
    then show ?thesis by blast
  next
    case False
    with Cons.prems have nd: "n_name nd = destination" by auto
    from find_dest_absent [OF False] nd
    have "find_dest destination (nd # ns) i dest = Some (i + 0)" by simp
    with nd show ?thesis by force
  qed
qed

lemma unreachable_search:
  assumes closed: "\<forall>e\<in>set E. e_start e \<in> S \<longrightarrow> e_end e \<in> S"
    and nonneg: "\<forall>e\<in>set E. 0 \<le> e_cost e"
    and o: "origin \<in> S" and d: "destination \<notin> S" and dN: "destination \<in> n_name ` set N"
  shows "(\<exists>ns j. dijkstra N E origin destination ig = Returns (ns, [j])
            \<and> j < length ns \<and> n_name (ns ! j) = destination)
       \<or> dijkstra N E origin destination ig = Raises AttributeError"
proof -
  let ?ns = "init_nodes origin (resetGraph N)"
  have nm: "map n_name ?ns = map n_name N"
    by (simp only: init_nodes_names resetGraph_names)
  then have "set (map n_name ?ns) = set (map n_name N)" by simp
  with dN have "destination \<in> n_name ` set ?ns" by simp
  from find_dest_present [OF this, of 0 None] obtain j where
    fd: "find_dest destination ?ns 0 None = Some j" and jl: "j < length ?ns"
    and jn: "n_name (?ns ! j) = destination" by auto
  have inv0: "labels_inv S ?ns" using o by (rule labels_inv_init)
  have fin: "\<And>ns'. labels_inv S ns' \<Longrightarrow> map n_name ns' = map n_name ?ns \<Longrightarrow>
      walk_back ns' j [] = Some [j] \<and> j < length ns' \<and> n_name (ns' ! j) = destination"
  proof -
    fix ns' assume inv: "labels_inv S ns'" and n: "map n_name ns' = map n_name ?ns"
    from n have l: "length ns' = length ?ns" by (rule map_eq_imp_length_eq)
    with jl n have jn': "n_name (ns' ! j) = n_name (?ns ! j)" by (metis nth_map)
    with jn d have "n_name (ns' ! j) \<notin> S" by simp
    with inv l jl have "n_prev (ns' ! j) = None" by (auto simp: labels_inv_def)
    then have "walk_back ns' j [] = Some [j]" by (simp add: walk_back.simps)
    with l jl jn' jn show "walk_back ns' j [] = Some [j] \<and> j < length ns'
        \<and> n_name (ns' ! j) = destination" by simp
  qed
  show ?thesis
  proof (cases "pickSmallestNode ?ns")
    case None
    with fd fin [OF inv0 refl] show ?thesis
      by (simp add: dijkstra_def dijkstra_search_def Let_def)
  next
    case (Some u)
    from pickSmallestNode_Some [OF Some] have ul: "u < length ?ns" by simp
    show ?thesis
    proof (cases "dijkstra_loop ?ns E ig (Some j) u")
      case (Returns ns')
      from dijkstra_loop_inv [OF closed nonneg inv0 ul Returns] have "labels_inv S ns'" .
      from fin [OF this dijkstra_loop_names [OF Returns]] Returns Some fd show ?thesis
        by (simp add: dijkstra_def dijkstra_search_def Let_def)
    next
      case (Raises e)
      with dijkstra_loop_outcome [of ?ns E ig "Some j" u e] have "e = AttributeError" by simp
      with Raises Some fd show ?thesis
        by (simp add: dijkstra_def dijkstra_search_def Let_def)
    next
      case Diverges
      with dijkstra_loop_outcome [of ?ns E ig "Some j" u] show ?thesis by simp
    qed
  qed
qed

lemma reach_closed: "\<forall>e\<in>set E. e_start e \<in> {x. reach E a x} \<longrightarrow> e_end e \<in> {x. reach E a x}"
  by (auto intro: reach_edge)


lemma run_MSA_first_pair_raises:
  assumes "shortest_route N E od = Raises err"
  shows "run_MSA (Suc its) N E ((od, demand) # OD) output = Raises err"
proof -
  from assms shortest_route_same [OF same_graph_clear_aux, of N E od]
  have "shortest_route N (clear_aux E) od = Raises err" by simp
  then show ?thesis by (simp add: run_MSA_def msa_iteration_def)
qed

lemma run_MSA_pair_raises:
  assumes "shortest_route N E od = Raises err"
    and "od \<in> set (map fst OD)" and "distinct (map fst OD)"
  shows "run_MSA (Suc its) N E OD output \<noteq> Returns res"
proof
  assume r: "run_MSA (Suc its) N E OD output = Returns res"
  let ?s0 = "(N, E, map (\<lambda>od. (od, [])) (map fst OD))"
  from r obtain s where l: "msa_loop 1 (Suc its) OD ?s0 = Returns s"
    by (cases "msa_loop 1 (Suc its) OD ?s0") (auto simp: run_MSA_def)
  then obtain s1 where i: "msa_iteration 1 OD ?s0 = Returns s1"
    by (cases "msa_iteration 1 OD ?s0") auto
  then obtain N1 mr tab1 where a: "all_or_nothing N (clear_aux E) (map fst OD) []
      (map (\<lambda>od. (od, [])) (map fst OD)) = Returns (N1, mr, tab1)"
    by (cases "all_or_nothing N (clear_aux E) (map fst OD) []
          (map (\<lambda>od. (od, [])) (map fst OD))")
       (auto simp: msa_iteration_def)
  from all_or_nothing_records [OF a assms(3)] assms(2)
  obtain ns route_str route where
    "shortest_route N (clear_aux E) od = Returns (ns, route_str, route)" by blast
  with shortest_route_same [OF same_graph_clear_aux, of N E od] assms(1)
  show False by simp
qed

lemma dijkstra_wf_no_raise:
  assumes "\<forall>e\<in>set E. e_end e \<in> n_name ` set N" and "destination \<in> n_name ` set N"
  shows "dijkstra N E origin destination ig \<noteq> Raises err"
proof -
  let ?ns = "init_nodes origin (resetGraph N)"
  have nm: "map n_name ?ns = map n_name N"
    by (simp only: init_nodes_names resetGraph_names)
  then have "set (map n_name ?ns) = set (map n_name N)" by simp
  with assms(2) have "destination \<in> n_name ` set ?ns" by simp
  from find_dest_present [OF this, of 0 None] obtain j where
    fd: "find_dest destination ?ns 0 None = Some j" by auto
  show ?thesis
  proof (cases "pickSmallestNode ?ns")
    case None
    with fd show ?thesis
      by (simp add: dijkstra_def dijkstra_search_def Let_def split: option.splits)
  next
    case (Some u)
    from assms(1) nm have "\<forall>e\<in>set E. e_end e \<in> set (map n_name ?ns)" by simp
    from dijkstra_loop_wf [OF this, of ig "Some j" u] obtain ns'
      where "dijkstra_loop ?ns E ig (Some j) u = Returns ns'" by blast
    with Some fd show ?thesis
      by (simp add: dijkstra_def dijkstra_search_def Let_def split: option.splits)
  qed
qed

text \<open>
  C1, what the code does. The destination names a node but cannot be reached from the
  origin along the edges, and no edge cost is negative. Then dijkstra raises no named
  error: it returns the list that holds the destination node alone (or raises
  AttributeError at an edge whose end names no node). The route of a pair made from
  that list is empty, pathToStr raises IndexError on it, and a run whose first pair
  this is ends with that IndexError (or that AttributeError); wherever the pair stands
  in the demand table, a run of at least one iteration does not return. When every edge
  ends at a node of the list it is the one-node list and the IndexError.
\<close>

theorem unreachable_destination_aborts:
  assumes "\<not> reach E o_name d_name" and "d_name \<in> n_name ` set N"
    and "\<forall>e\<in>set E. 0 \<le> e_cost e"
    and "CHR ''|'' \<notin> set o_name" and "CHR ''|'' \<notin> set d_name"
  shows "((\<exists>ns j. dijkstra N E o_name d_name [] = Returns (ns, [j])
              \<and> j < length ns \<and> n_name (ns ! j) = d_name)
          \<or> dijkstra N E o_name d_name [] = Raises AttributeError)
    \<and> (run_MSA (Suc its) N E ((o_name @ ''|'' @ d_name, demand) # OD) output = Raises IndexError
        \<or> run_MSA (Suc its) N E ((o_name @ ''|'' @ d_name, demand) # OD) output
            = Raises AttributeError)
    \<and> ((o_name @ ''|'' @ d_name, demand) \<in> set OD2 \<and> distinct (map fst OD2) \<longrightarrow>
          run_MSA (Suc its) N E OD2 output \<noteq> Returns res)
    \<and> ((\<forall>e\<in>set E. e_end e \<in> n_name ` set N) \<longrightarrow>
          (\<exists>ns j. dijkstra N E o_name d_name [] = Returns (ns, [j])
              \<and> j < length ns \<and> n_name (ns ! j) = d_name)
          \<and> run_MSA (Suc its) N E ((o_name @ ''|'' @ d_name, demand) # OD) output
              = Raises IndexError)"
proof -
  let ?key = "o_name @ ''|'' @ d_name"
  have o: "o_name \<in> {x. reach E o_name x}" by (simp add: reach_origin)
  have d: "d_name \<notin> {x. reach E o_name x}" using assms(1) by simp
  from unreachable_search [OF reach_closed assms(3) o d assms(2), of "[]"]
  have dj: "(\<exists>ns j. dijkstra N E o_name d_name [] = Returns (ns, [j])
              \<and> j < length ns \<and> n_name (ns ! j) = d_name)
          \<or> dijkstra N E o_name d_name [] = Raises AttributeError" .
  note sp = split_on_one_sep [OF assms(4,5)]
  have ret: "\<And>ns j. dijkstra N E o_name d_name [] = Returns (ns, [j]) \<Longrightarrow>
      shortest_route N E ?key = Raises IndexError"
    by (simp add: shortest_route_def sp pathToStr_def)
  have rai: "dijkstra N E o_name d_name [] = Raises AttributeError \<Longrightarrow>
      shortest_route N E ?key = Raises AttributeError"
    by (simp add: shortest_route_def sp)
  from dj ret rai have sr: "shortest_route N E ?key = Raises IndexError
      \<or> shortest_route N E ?key = Raises AttributeError" by blast
  then have run: "run_MSA (Suc its) N E ((?key, demand) # OD) output = Raises IndexError
        \<or> run_MSA (Suc its) N E ((?key, demand) # OD) output = Raises AttributeError"
    using run_MSA_first_pair_raises [of N E ?key _ its demand OD "output"] by blast
  have anywhere: "(?key, demand) \<in> set OD2 \<and> distinct (map fst OD2) \<longrightarrow>
          run_MSA (Suc its) N E OD2 output \<noteq> Returns res"
  proof
    assume a: "(?key, demand) \<in> set OD2 \<and> distinct (map fst OD2)"
    then have k: "?key \<in> set (map fst OD2)" by force
    from sr show "run_MSA (Suc its) N E OD2 output \<noteq> Returns res"
    proof
      assume "shortest_route N E ?key = Raises IndexError"
      from run_MSA_pair_raises [OF this k] a show ?thesis by simp
    next
      assume "shortest_route N E ?key = Raises AttributeError"
      from run_MSA_pair_raises [OF this k] a show ?thesis by simp
    qed
  qed
  have wf: "(\<forall>e\<in>set E. e_end e \<in> n_name ` set N) \<longrightarrow>
          (\<exists>ns j. dijkstra N E o_name d_name [] = Returns (ns, [j])
              \<and> j < length ns \<and> n_name (ns ! j) = d_name)
          \<and> run_MSA (Suc its) N E ((?key, demand) # OD) output = Raises IndexError"
  proof
    assume w: "\<forall>e\<in>set E. e_end e \<in> n_name ` set N"
    from dijkstra_wf_no_raise [OF w assms(2), of o_name "[]" AttributeError] dj
    have r: "\<exists>ns j. dijkstra N E o_name d_name [] = Returns (ns, [j])
              \<and> j < length ns \<and> n_name (ns ! j) = d_name" by blast
    then obtain ns j where "dijkstra N E o_name d_name [] = Returns (ns, [j])" by blast
    from run_MSA_first_pair_raises [OF ret [OF this], of its demand OD "output"] r
    show "(\<exists>ns j. dijkstra N E o_name d_name [] = Returns (ns, [j])
              \<and> j < length ns \<and> n_name (ns ! j) = d_name)
          \<and> run_MSA (Suc its) N E ((?key, demand) # OD) output = Raises IndexError" by blast
  qed
  from dj run anywhere wf show ?thesis by blast
qed

lemma line_unreachable: "\<not> reach line_E ''b'' ''a''"
proof
  assume "reach line_E ''b'' ''a''"
  then have "''a'' = ''b''"
    by (induction rule: reach.induct) (auto simp: line_E_def Edge_def update_cost_def)
  then show False by simp
qed

theorem unreachable_destination_aborts_witness:
  "\<not> reach line_E ''b'' ''a''
   \<and> ''a'' \<in> n_name ` set line_N
   \<and> e_cost (Edge ''a'' ''b'' (\<lambda>x. 1 + x)) = 1
   \<and> e_end (Edge ''a'' ''b'' (\<lambda>x. 1 + x)) \<in> n_name ` set line_N
   \<and> (\<exists>ns j. dijkstra line_N line_E ''b'' ''a'' [] = Returns (ns, [j])
              \<and> j < length ns \<and> n_name (ns ! j) = ''a'')
   \<and> run_MSA (Suc 0) line_N line_E ((''b'' @ ''|'' @ ''a'', 10) # []) True = Raises IndexError"
  using unreachable_destination_aborts [OF line_unreachable, of line_N 0 10 "[]" True]
    line_unreachable
  by (simp add: line_N_def line_E_def Node_def Edge_def update_cost_def)

text \<open>
  The network \<open>a-b\<close> with the pair \<open>b|a\<close>: dijkstra returns the list of node 0
  (\<open>a\<close>), and the run ends in IndexError.
\<close>

theorem unreachable_destination_run:
  "dijkstra line_N line_E ''b'' ''a'' []
     = Returns ([\<lparr>n_name = ''a'', n_dist = 1000000, n_prev = None, n_flag = 0\<rparr>,
                 \<lparr>n_name = ''b'', n_dist = 0, n_prev = None, n_flag = 1\<rparr>], [0])
   \<and> run_MSA 1 line_N line_E [(''b|a'', 10)] True = Raises IndexError"
  by (simp add: run_MSA_def line_N_def line_E_def msa_eval)

end
